theory Spec2Isabelle
  imports Complex_Main "HOL-Library.Sublist"
begin

section \<open>Text and character classes\<close>

text \<open>
  A Python \<open>str\<close> is modelled as a \<open>string\<close> whose characters are the code points
  U+0000 to U+00FF. The classes below are the classes \<open>\<bsol>s\<close> and \<open>\<bsol>w\<close> of the \<open>re\<close>
  module for \<open>str\<close> patterns (the Unicode classes), restricted to that range;
  \<open>str.strip\<close> removes the same whitespace characters.
\<close>

definition is_space :: "char \<Rightarrow> bool" where
  "is_space c = (c \<in> {CHR 0x09, CHR 0x0A, CHR 0x0B, CHR 0x0C, CHR 0x0D,
                       CHR 0x1C, CHR 0x1D, CHR 0x1E, CHR 0x1F, CHR 0x20, CHR 0x85, CHR 0xA0})"

definition is_ascii_upper :: "char \<Rightarrow> bool" where
  "is_ascii_upper c = (let n = (of_char c :: nat) in 65 \<le> n \<and> n \<le> 90)"

definition is_ascii_lower :: "char \<Rightarrow> bool" where
  "is_ascii_lower c = (let n = (of_char c :: nat) in 97 \<le> n \<and> n \<le> 122)"

definition is_ascii_digit :: "char \<Rightarrow> bool" where
  "is_ascii_digit c = (let n = (of_char c :: nat) in 48 \<le> n \<and> n \<le> 57)"

definition is_ascii_letter :: "char \<Rightarrow> bool" where
  "is_ascii_letter c = (is_ascii_upper c \<or> is_ascii_lower c)"

definition is_word :: "char \<Rightarrow> bool" where
  "is_word c =
     (let n = (of_char c :: nat) in
        is_ascii_letter c \<or> is_ascii_digit c \<or> c = CHR ''_''
        \<or> n \<in> {170, 178, 179, 181, 185, 186, 188, 189, 190}
        \<or> (192 \<le> n \<and> n \<le> 214) \<or> (216 \<le> n \<and> n \<le> 246) \<or> 248 \<le> n)"

text \<open>
  The assertion \<open>\<bsol>b\<close>: the characters on the two sides of a position differ in being
  word characters; the start and the end of the text count as non-word.
\<close>

definition word_of :: "char option \<Rightarrow> bool" where
  "word_of oc = (case oc of None \<Rightarrow> False | Some c \<Rightarrow> is_word c)"

definition boundary :: "char option \<Rightarrow> char option \<Rightarrow> bool" where
  "boundary l r = (word_of l \<noteq> word_of r)"

definition first_char :: "string \<Rightarrow> char option" where
  "first_char s = (case s of [] \<Rightarrow> None | c # _ \<Rightarrow> Some c)"

text \<open>Matching under \<open>re.IGNORECASE\<close> against a lower-case ASCII letter of the pattern.\<close>

definition ascii_lower :: "char \<Rightarrow> char" where
  "ascii_lower c = (if is_ascii_upper c then char_of ((of_char c :: nat) + 32) else c)"

fun prefix_ci :: "string \<Rightarrow> string \<Rightarrow> bool" where
  "prefix_ci [] s = True"
| "prefix_ci (p # ps) [] = False"
| "prefix_ci (p # ps) (c # cs) = (ascii_lower c = p \<and> prefix_ci ps cs)"

fun starts_with :: "string \<Rightarrow> string \<Rightarrow> bool" where
  "starts_with [] s = True"
| "starts_with (p # ps) [] = False"
| "starts_with (p # ps) (c # cs) = (c = p \<and> starts_with ps cs)"

section \<open>Regular-expression substitution\<close>

text \<open>
  \<open>re.sub(pattern, repl, text)\<close> scans the text from the left. At each position the
  pattern is tried; a match is replaced by \<open>repl\<close> and the scan goes on behind it, a
  failure copies one character. The pattern is given as a function from the character
  before the position and the rest of the text to the length of the match there. Every
  pattern of this program matches at least one character.
\<close>

function re_sub :: "(char option \<Rightarrow> string \<Rightarrow> nat option) \<Rightarrow> string \<Rightarrow> char option \<Rightarrow> string \<Rightarrow> string" where
  "re_sub m repl prev [] = []"
| "re_sub m repl prev (c # cs) =
     (case m prev (c # cs) of
        None \<Rightarrow> c # re_sub m repl (Some c) cs
      | Some n \<Rightarrow> repl @ re_sub m repl (Some (last (c # take (n - 1) cs))) (drop (n - 1) cs))"
  by pat_completeness auto
termination
  by (relation "measure (\<lambda>(m, repl, prev, s). length s)") auto

text \<open>\<open><[^>]+>\<close>: an opening bracket, one or more characters other than \<open>>\<close>, and \<open>>\<close>.\<close>

definition tag_match :: "char option \<Rightarrow> string \<Rightarrow> nat option" where
  "tag_match prev s =
     (case s of
        [] \<Rightarrow> None
      | c # cs \<Rightarrow>
          (let inner = takeWhile (\<lambda>x. x \<noteq> CHR ''>'') cs;
               rest = dropWhile (\<lambda>x. x \<noteq> CHR ''>'') cs
           in if c = CHR ''<'' \<and> inner \<noteq> [] \<and> rest \<noteq> [] then Some (length inner + 2) else None))"

text \<open>
  \<open>http[s]?://(?:[a-zA-Z]|[0-9]|[$-_@.&+]|[!*\(\),]|(?:%[0-9a-fA-F][0-9a-fA-F]))+\<close>.
  The class \<open>[$-_@.&+]\<close> holds the range from \<open>$\<close> (0x24) to \<open>_\<close> (0x5F). The last
  alternative starts with \<open>%\<close>, which the third alternative takes first, so the
  repetition consumes the longest run of the characters of the first four alternatives.
\<close>

definition is_url_char :: "char \<Rightarrow> bool" where
  "is_url_char c =
     (let n = (of_char c :: nat) in
        is_ascii_letter c \<or> is_ascii_digit c
        \<or> (36 \<le> n \<and> n \<le> 95) \<or> c \<in> {CHR ''@'', CHR ''.'', CHR ''&'', CHR ''+''}
        \<or> c \<in> {CHR ''!'', CHR ''*'', CHR ''('', CHR '')'', CHR '',''})"

definition url_match :: "char option \<Rightarrow> string \<Rightarrow> nat option" where
  "url_match prev s =
     (if starts_with ''https://'' s \<and> takeWhile is_url_char (drop 8 s) \<noteq> []
      then Some (8 + length (takeWhile is_url_char (drop 8 s)))
      else if starts_with ''http://'' s \<and> takeWhile is_url_char (drop 7 s) \<noteq> []
      then Some (7 + length (takeWhile is_url_char (drop 7 s)))
      else None)"

text \<open>
  \<open>\<bsol>b[A-Za-z0-9._%+-]+@[A-Za-z0-9.-]+\<bsol>.[A-Z|a-z]{2,}\<bsol>b\<close>. The local part is the longest
  run of its class (the \<open>@\<close> behind it is outside the class). The domain and the last
  label are greedy with backtracking: the longest domain is tried first, and for each
  domain the longest last label first.
\<close>

definition is_local_char :: "char \<Rightarrow> bool" where
  "is_local_char c = (is_ascii_letter c \<or> is_ascii_digit c
                      \<or> c \<in> {CHR ''.'', CHR ''_'', CHR ''%'', CHR ''+'', CHR ''-''})"

definition is_domain_char :: "char \<Rightarrow> bool" where
  "is_domain_char c = (is_ascii_letter c \<or> is_ascii_digit c \<or> c \<in> {CHR ''.'', CHR ''-''})"

definition is_tld_char :: "char \<Rightarrow> bool" where
  "is_tld_char c = (is_ascii_letter c \<or> c = CHR ''|'')"

text \<open>\<open>[A-Z|a-z]{2,}\<bsol>b\<close> at the start of \<open>t\<close>: the length of the match, longest first.\<close>

definition tld_match :: "string \<Rightarrow> nat option" where
  "tld_match t =
     List.find (\<lambda>j. boundary (Some (t ! (j - 1))) (first_char (drop j t)))
       (rev [2 ..< Suc (length (takeWhile is_tld_char t))])"

text \<open>
  \<open>[A-Za-z0-9.-]+\<bsol>.[A-Z|a-z]{2,}\<bsol>b\<close> at the start of \<open>d\<close>: the domain takes \<open>k\<close>
  characters of its run, the next character is the dot, the last label follows.
\<close>

fun domain_match :: "string \<Rightarrow> nat list \<Rightarrow> nat option" where
  "domain_match d [] = None"
| "domain_match d (k # ks) =
     (if first_char (drop k d) = Some (CHR ''.'') then
        (case tld_match (drop (Suc k) d) of
           Some j \<Rightarrow> Some (k + 1 + j)
         | None \<Rightarrow> domain_match d ks)
      else domain_match d ks)"

definition email_match :: "char option \<Rightarrow> string \<Rightarrow> nat option" where
  "email_match prev s =
     (let localpart = takeWhile is_local_char s;
          rest = dropWhile is_local_char s
      in if boundary prev (first_char s) \<and> localpart \<noteq> [] \<and> first_char rest = Some (CHR ''@'') then
           (let d = tl rest in
              case domain_match d (rev [1 ..< Suc (length (takeWhile is_domain_char d))]) of
                Some n \<Rightarrow> Some (length localpart + 1 + n)
              | None \<Rightarrow> None)
         else None)"

text \<open>\<open>\<bsol>s+\<close>: a run of whitespace.\<close>

definition space_match :: "char option \<Rightarrow> string \<Rightarrow> nat option" where
  "space_match prev s =
     (if takeWhile is_space s \<noteq> [] then Some (length (takeWhile is_space s)) else None)"

text \<open>
  \<open>(unsubscribe|privacy policy|terms of service|\<bsol>bsent from\<bsol>b|\<bsol>bbest regards\<bsol>b|\<bsol>bsincerely\<bsol>b).*\<close>
  with \<open>re.IGNORECASE\<close>: the markers in the order of the alternation, each with the flag
  whether it stands between \<open>\<bsol>b\<close> assertions. The \<open>.*\<close> behind the marker runs to the
  end of the line.
\<close>

definition footer_markers :: "(string \<times> bool) list" where
  "footer_markers =
     [(''unsubscribe'', False), (''privacy policy'', False), (''terms of service'', False),
      (''sent from'', True), (''best regards'', True), (''sincerely'', True)]"

definition marker_at :: "char option \<Rightarrow> string \<Rightarrow> (string \<times> bool) \<Rightarrow> bool" where
  "marker_at prev s mk =
     (case mk of (w, bounded) \<Rightarrow>
        prefix_ci w s \<and>
        (bounded \<longrightarrow> boundary prev (first_char s)
                    \<and> boundary (Some (last w)) (first_char (drop (length w) s))))"

definition footer_match :: "char option \<Rightarrow> string \<Rightarrow> nat option" where
  "footer_match prev s =
     (case List.find (marker_at prev s) footer_markers of
        None \<Rightarrow> None
      | Some (w, bounded) \<Rightarrow>
          Some (length w + length (takeWhile (\<lambda>x. x \<noteq> CHR 0x0A) (drop (length w) s))))"

text \<open>\<open>[^\<bsol>w\<bsol>s.,!?;:\<bsol>-\<bsol>'"()]\<close>: one character outside the kept set.\<close>

definition is_kept :: "char \<Rightarrow> bool" where
  "is_kept c = (is_word c \<or> is_space c
                \<or> c \<in> {CHR ''.'', CHR '','', CHR ''!'', CHR ''?'', CHR '';'', CHR '':'',
                         CHR ''-'', CHR 0x27, CHR 0x22, CHR ''('', CHR '')''})"

definition special_match :: "char option \<Rightarrow> string \<Rightarrow> nat option" where
  "special_match prev s = (case s of [] \<Rightarrow> None | c # _ \<Rightarrow> if is_kept c then None else Some 1)"

section \<open>String methods\<close>

text \<open>\<open>str.split(sep)\<close> for a separator of one character, \<open>str.strip()\<close> and \<open>sep.join\<close>.\<close>

fun split_on :: "char \<Rightarrow> string \<Rightarrow> string list" where
  "split_on d [] = [[]]"
| "split_on d (c # cs) =
     (if c = d then [] # split_on d cs
      else (case split_on d cs of [] \<Rightarrow> [[c]] | l # ls \<Rightarrow> (c # l) # ls))"

definition strip :: "string \<Rightarrow> string" where
  "strip s = rev (dropWhile is_space (rev (dropWhile is_space s)))"

fun join :: "string \<Rightarrow> string list \<Rightarrow> string" where
  "join sep [] = []"
| "join sep [x] = x"
| "join sep (x # y # zs) = x @ sep @ join sep (y # zs)"

section \<open>clean_email_body\<close>

text \<open>
  \<open>html.unescape(s)\<close> returns \<open>s\<close> itself when it holds no \<open>&\<close>; otherwise it replaces
  character references from the tables of the standard library. The tables are not part
  of this program: the replacement is the parameter \<open>charrefs\<close>.
\<close>

definition html_unescape :: "(string \<Rightarrow> string) \<Rightarrow> string \<Rightarrow> string" where
  "html_unescape charrefs s = (if CHR ''&'' \<notin> set s then s else charrefs s)"

definition clean_email_body :: "(string \<Rightarrow> string) \<Rightarrow> string \<Rightarrow> string" where
  "clean_email_body charrefs body =
     (if body = [] then []
      else
        let text = html_unescape charrefs body;
            text = re_sub tag_match '' '' None text;
            text = re_sub url_match '' '' None text;
            text = re_sub email_match '' '' None text;
            text = re_sub space_match '' '' None text;
            text = re_sub footer_match [] None text;
            lines = split_on (CHR 0x0A) text;
            cleaned_lines = filter (\<lambda>line. \<not> starts_with ''>'' (strip line)) lines;
            text = join '' '' cleaned_lines;
            text = re_sub special_match '' '' None text;
            text = strip (re_sub space_match '' '' None text)
        in if length text > 500 then take 500 text @ ''...'' else text)"

section \<open>Embedding vectors\<close>

text \<open>
  A component of a normalised vector or a score is a real number or the not-a-number of
  floating-point arithmetic, which division of zero by zero yields in numpy without
  raising. Rounding is not modelled: finite values are real numbers. Comparisons with
  not-a-number are false, as in Python.
\<close>

datatype npfloat = Fin real | NaN

fun np_add :: "npfloat \<Rightarrow> npfloat \<Rightarrow> npfloat" where
  "np_add (Fin a) (Fin b) = Fin (a + b)"
| "np_add _ _ = NaN"

fun np_mul :: "npfloat \<Rightarrow> npfloat \<Rightarrow> npfloat" where
  "np_mul (Fin a) (Fin b) = Fin (a * b)"
| "np_mul _ _ = NaN"

fun np_lt :: "npfloat \<Rightarrow> npfloat \<Rightarrow> bool" where
  "np_lt (Fin a) (Fin b) = (a < b)"
| "np_lt _ _ = False"

fun np_le :: "npfloat \<Rightarrow> npfloat \<Rightarrow> bool" where
  "np_le (Fin a) (Fin b) = (a \<le> b)"
| "np_le _ _ = False"

fun np_ge :: "npfloat \<Rightarrow> real \<Rightarrow> bool" where
  "np_ge (Fin a) t = (a \<ge> t)"
| "np_ge NaN t = False"

text \<open>\<open>np.linalg.norm\<close> of a vector, and the division of a vector by its norm.\<close>

definition np_norm :: "real list \<Rightarrow> real" where
  "np_norm v = sqrt (sum_list (map (\<lambda>x. x * x) v))"

definition np_divide :: "real list \<Rightarrow> real \<Rightarrow> npfloat list" where
  \<comment> \<open>Over a zero norm every component is zero, and 0/0 is not-a-number.\<close>
  "np_divide v n = map (\<lambda>x. if n = 0 then NaN else Fin (x / n)) v"

definition np_dot :: "npfloat list \<Rightarrow> npfloat list \<Rightarrow> npfloat" where
  "np_dot u v = foldl np_add (Fin 0) (map2 np_mul u v)"

section \<open>The search engine\<close>

text \<open>
  The engine holds the embedding model and the default threshold. \<open>encode\<close> stands for
  \<open>self.model.encode\<close>. Every call of it is recorded: the functions that embed a text
  take the list of the texts encoded so far and return it extended.
\<close>

record engine =
  encode :: "string \<Rightarrow> real list"
  model_name :: string
  similarity_threshold :: real

type_synonym email = "string \<rightharpoonup> string"

type_synonym calls = "string list"

datatype error = ValueError

definition create_email_embedding ::
  "(string \<Rightarrow> string) \<Rightarrow> engine \<Rightarrow> email \<Rightarrow> calls \<Rightarrow> npfloat list \<times> calls" where
  "create_email_embedding charrefs eng email_data trace =
     (let subject = strip (case email_data ''subject'' of None \<Rightarrow> [] | Some v \<Rightarrow> v);
          body = (case email_data ''full_body'' of
                    Some v \<Rightarrow> v
                  | None \<Rightarrow> (case email_data ''body'' of None \<Rightarrow> [] | Some v \<Rightarrow> v));
          cleaned_body = clean_email_body charrefs body;
          combined_text = subject @ '' '' @ subject @ '' '' @ cleaned_body;
          combined_text = (if strip combined_text = [] then ''empty email'' else combined_text);
          embedding = encode eng combined_text
      in (np_divide embedding (np_norm embedding), trace @ [combined_text]))"

text \<open>
  Names for the parts of \<open>create_email_embedding\<close>: the subject it uses, the body it
  cleans, and the text it passes to the model.
\<close>

definition email_subject :: "email \<Rightarrow> string" where
  "email_subject email_data = strip (case email_data ''subject'' of None \<Rightarrow> [] | Some v \<Rightarrow> v)"

definition email_body :: "email \<Rightarrow> string" where
  "email_body email_data =
     (case email_data ''full_body'' of
        Some v \<Rightarrow> v
      | None \<Rightarrow> (case email_data ''body'' of None \<Rightarrow> [] | Some v \<Rightarrow> v))"

definition email_text :: "(string \<Rightarrow> string) \<Rightarrow> email \<Rightarrow> string" where
  "email_text charrefs email_data =
     (let combined_text = email_subject email_data @ '' '' @ email_subject email_data @ '' ''
                            @ clean_email_body charrefs (email_body email_data)
      in if strip combined_text = [] then ''empty email'' else combined_text)"

definition create_query_embedding :: "engine \<Rightarrow> string \<Rightarrow> calls \<Rightarrow> npfloat list \<times> calls" where
  "create_query_embedding eng query trace =
     (let embedding = encode eng query
      in (np_divide embedding (np_norm embedding), trace @ [query]))"

text \<open>
  \<open>np.vstack\<close> raises ValueError when the vectors differ in length, and \<open>np.dot\<close> when
  the rows of the matrix and the query vector do.
\<close>

definition compute_similarity :: "npfloat list \<Rightarrow> npfloat list list \<Rightarrow> error + npfloat list" where
  "compute_similarity query_embedding email_embeddings =
     (if email_embeddings = [] then Inr []
      else if \<exists>v \<in> set email_embeddings. length v \<noteq> length (hd email_embeddings) then Inl ValueError
      else if length (hd email_embeddings) \<noteq> length query_embedding then Inl ValueError
      else Inr (map (\<lambda>v. np_dot v query_embedding) email_embeddings))"

text \<open>The list comprehension that embeds every email, in corpus order.\<close>

fun embed_all ::
  "(string \<Rightarrow> string) \<Rightarrow> engine \<Rightarrow> email list \<Rightarrow> calls \<Rightarrow> npfloat list list \<times> calls" where
  "embed_all charrefs eng [] trace = ([], trace)"
| "embed_all charrefs eng (e # es) trace =
     (case create_email_embedding charrefs eng e trace of
        (v, trace1) \<Rightarrow> (case embed_all charrefs eng es trace1 of (vs, trace2) \<Rightarrow> (v # vs, trace2)))"

text \<open>
  \<open>list.sort(key=lambda x: x[1], reverse=True)\<close> compares keys with Python's \<open><\<close> only.
  It is stable and descending, which fixes its result when the keys are numbers:
  \<open>stable_sort_desc\<close> puts an element in front of the first element that its key is not
  less than.
\<close>

fun insert_desc :: "('a \<times> npfloat) \<Rightarrow> ('a \<times> npfloat) list \<Rightarrow> ('a \<times> npfloat) list" where
  "insert_desc x [] = [x]"
| "insert_desc x (y # ys) = (if np_lt (snd x) (snd y) then y # insert_desc x ys else x # y # ys)"

definition stable_sort_desc :: "('a \<times> npfloat) list \<Rightarrow> ('a \<times> npfloat) list" where
  "stable_sort_desc xs = foldr insert_desc xs []"

text \<open>
  A not-a-number key is not less than any key and no key is less than it, so the result
  then depends on the comparisons that the sort makes. The definitions below follow
  \<open>list.sort\<close> of CPython 3.11 (\<open>Objects/listobject.c\<close>), which reverses the list, sorts
  it ascending and reverses it again. Below 64 elements the ascending sort is
  \<open>count_run\<close>, which finds the run at the start of the list (ascending, or strictly
  descending and then reversed), followed by \<open>binarysort\<close>, which inserts each further
  element at the place that a binary search of the sorted part gives.
\<close>

fun run_length :: "bool \<Rightarrow> npfloat \<Rightarrow> npfloat list \<Rightarrow> nat" where
  "run_length descending prev [] = 0"
| "run_length descending prev (k # ks) =
     (if np_lt k prev = descending then Suc (run_length descending k ks) else 0)"

definition count_run :: "npfloat list \<Rightarrow> nat \<times> bool" where
  "count_run keys =
     (case keys of
        [] \<Rightarrow> (0, False)
      | [a] \<Rightarrow> (1, False)
      | a # b # ks \<Rightarrow> (2 + run_length (np_lt b a) b ks, np_lt b a))"

function bisect :: "npfloat \<Rightarrow> npfloat list \<Rightarrow> nat \<Rightarrow> nat \<Rightarrow> nat" where
  "bisect pivot keys l r =
     (if l < r then
        (if np_lt pivot (keys ! (l + (r - l) div 2)) then bisect pivot keys l (l + (r - l) div 2)
         else bisect pivot keys (l + (r - l) div 2 + 1) r)
      else l)"
  by pat_completeness auto
termination
  by (relation "measure (\<lambda>(pivot, keys, l, r). r - l)") auto

declare bisect.simps [simp del]

definition binary_insert :: "('a \<times> npfloat) list \<Rightarrow> ('a \<times> npfloat) \<Rightarrow> ('a \<times> npfloat) list" where
  "binary_insert run x =
     (let pos = bisect (snd x) (map snd run) 0 (length run)
      in take pos run @ [x] @ drop pos run)"

definition binarysort :: "('a \<times> npfloat) list \<Rightarrow> ('a \<times> npfloat) list" where
  "binarysort xs =
     (case count_run (map snd xs) of
        (n, descending) \<Rightarrow>
          foldl binary_insert (if descending then rev (take n xs) else take n xs) (drop n xs))"

text \<open>
  From 64 elements on CPython sorts runs of 32 to 64 elements in this way and merges
  them. Where a not-a-number key leaves the merged order to the merge strategy of the
  interpreter, the order is the parameter \<open>merge_order\<close>: the rank that it gives to each
  position of the list, by which the list is permuted.
\<close>

definition permute_by :: "(nat \<Rightarrow> nat) \<Rightarrow> 'a list \<Rightarrow> 'a list" where
  "permute_by rank xs = map (\<lambda>i. xs ! i) (sort_key rank [0 ..< length xs])"

definition list_sort_reverse ::
  "(npfloat list \<Rightarrow> nat \<Rightarrow> nat) \<Rightarrow> ('a \<times> npfloat) list \<Rightarrow> ('a \<times> npfloat) list" where
  "list_sort_reverse merge_order xs =
     (if NaN \<notin> set (map snd xs) then stable_sort_desc xs
      else if length xs < 64 then rev (binarysort (rev xs))
      else permute_by (merge_order (map snd xs)) xs)"

text \<open>The slice \<open>xs[:k]\<close>: a negative \<open>k\<close> counts from the end.\<close>

definition slice_to :: "'a list \<Rightarrow> int \<Rightarrow> 'a list" where
  "slice_to xs k = (if k < 0 then take (length xs - nat (- k)) xs else take (nat k) xs)"

text \<open>
  The scoring part of \<open>semantic_search\<close> (the threshold apart): the query embedding, the
  embeddings of the emails, the similarities, and the emails zipped with them.
\<close>

definition score_emails ::
  "(string \<Rightarrow> string) \<Rightarrow> engine \<Rightarrow> string \<Rightarrow> email list \<Rightarrow> calls
     \<Rightarrow> (error + (email \<times> npfloat) list) \<times> calls" where
  "score_emails charrefs eng query emails trace =
     (case create_query_embedding eng query trace of
        (query_embedding, trace1) \<Rightarrow>
          (case embed_all charrefs eng emails trace1 of
             (email_embeddings, trace2) \<Rightarrow>
               (case compute_similarity query_embedding email_embeddings of
                  Inl err \<Rightarrow> (Inl err, trace2)
                | Inr similarities \<Rightarrow> (Inr (zip emails similarities), trace2))))"

definition semantic_search ::
  "(npfloat list \<Rightarrow> nat \<Rightarrow> nat) \<Rightarrow> (string \<Rightarrow> string) \<Rightarrow> engine \<Rightarrow> string \<Rightarrow> email list \<Rightarrow> int
     \<Rightarrow> real option \<Rightarrow> calls \<Rightarrow> (error + (email \<times> npfloat) list) \<times> calls" where
  "semantic_search merge_order charrefs eng query emails top_k min_threshold trace =
     (if emails = [] then (Inr [], trace)
      else
        let threshold = (case min_threshold of Some t \<Rightarrow> t | None \<Rightarrow> similarity_threshold eng)
        in case score_emails charrefs eng query emails trace of
             (Inl err, trace') \<Rightarrow> (Inl err, trace')
           | (Inr email_scores, trace') \<Rightarrow>
               (let filtered_scores = filter (\<lambda>(email, score). np_ge score threshold) email_scores
                in if filtered_scores = [] then
                     (Inr (if email_scores \<noteq> []
                           then slice_to (list_sort_reverse merge_order email_scores) 1 else []),
                      trace')
                   else (Inr (slice_to (list_sort_reverse merge_order filtered_scores) top_k),
                         trace')))"

definition search_with_threshold ::
  "(npfloat list \<Rightarrow> nat \<Rightarrow> nat) \<Rightarrow> (string \<Rightarrow> string) \<Rightarrow> engine \<Rightarrow> string \<Rightarrow> email list \<Rightarrow> real
     \<Rightarrow> int \<Rightarrow> calls \<Rightarrow> (error + (email \<times> npfloat) list) \<times> calls" where
  "search_with_threshold merge_order charrefs eng query emails threshold top_k trace =
     (case semantic_search merge_order charrefs eng query emails (int (length emails)) None trace of
        (Inl err, trace') \<Rightarrow> (Inl err, trace')
      | (Inr results, trace') \<Rightarrow>
          (let filtered_results = filter (\<lambda>(email, score). np_ge score threshold) results
           in (Inr (slice_to filtered_results top_k), trace')))"

section \<open>A small engine and corpus\<close>

text \<open>
  An engine whose model looks at the first character of the text only, and emails that
  have a subject and no body. They serve to run the definitions on concrete inputs.
\<close>

definition toy_encode :: "string \<Rightarrow> real list" where
  "toy_encode t =
     (case t of
        [] \<Rightarrow> [0, 0]
      | c # _ \<Rightarrow>
          if c = CHR ''a'' then [1, 0]
          else if c = CHR ''b'' then [0, 1]
          else if c = CHR ''c'' then [3 / 5, 4 / 5]
          else if c = CHR ''z'' then [0, 0]
          else [- 1, 0])"

definition toy_engine :: engine where
  "toy_engine = \<lparr>encode = toy_encode, model_name = ''toy'', similarity_threshold = 1 / 10\<rparr>"

definition mail :: "string \<Rightarrow> email" where
  "mail s = [''subject'' \<mapsto> s]"

section \<open>The shape of a cleaned text\<close>

text \<open>
  A text is single-spaced when its only whitespace characters are spaces and no
  whitespace character follows a space.
\<close>

fun single_spaced :: "string \<Rightarrow> bool" where
  "single_spaced [] = True"
| "single_spaced (c # cs) =
     ((if is_space c then c = CHR '' '' \<and> (case cs of [] \<Rightarrow> True | d # _ \<Rightarrow> \<not> is_space d) else True)
      \<and> single_spaced cs)"

section \<open>Properties of the ranking\<close>

lemma set_insert_desc: "set (insert_desc x ys) = insert x (set ys)"
  by (induction ys) auto

lemma length_insert_desc: "length (insert_desc x ys) = Suc (length ys)"
  by (induction ys) auto

lemma set_stable_sort_desc: "set (stable_sort_desc xs) = set xs"
  by (induction xs) (auto simp: stable_sort_desc_def set_insert_desc)

lemma length_stable_sort_desc: "length (stable_sort_desc xs) = length xs"
  by (induction xs) (auto simp: stable_sort_desc_def length_insert_desc)

lemma stable_sort_desc_Nil_iff: "stable_sort_desc xs = [] \<longleftrightarrow> xs = []"
  using length_stable_sort_desc [of xs] by auto

lemma np_le_total: "a \<noteq> NaN \<Longrightarrow> b \<noteq> NaN \<Longrightarrow> \<not> np_lt a b \<Longrightarrow> np_le b a"
  by (cases a; cases b) auto

lemma np_lt_le: "np_lt a b \<Longrightarrow> np_le a b"
  by (cases a; cases b) auto

lemma np_le_trans: "np_le a b \<Longrightarrow> np_le b c \<Longrightarrow> np_le a c"
  by (cases a; cases b; cases c) auto

lemma np_le_refl: "a \<noteq> NaN \<Longrightarrow> np_le a a"
  by (cases a) auto

lemma sorted_insert_desc:
  assumes "sorted_wrt (\<lambda>a b. np_le (snd b) (snd a)) ys" and "snd x \<noteq> NaN"
    and "\<forall>y\<in>set ys. snd y \<noteq> NaN"
  shows "sorted_wrt (\<lambda>a b. np_le (snd b) (snd a)) (insert_desc x ys)"
  using assms
proof (induction ys)
  case Nil
  then show ?case by simp
next
  case (Cons y ys)
  show ?case
  proof (cases "np_lt (snd x) (snd y)")
    case True
    then have "np_le (snd x) (snd y)" by (rule np_lt_le)
    with Cons True show ?thesis by (auto simp: set_insert_desc)
  next
    case False
    with Cons.prems have xy: "np_le (snd y) (snd x)" by (simp add: np_le_total)
    have "\<forall>z\<in>set ys. np_le (snd z) (snd x)"
      using Cons.prems(1) xy by (auto intro: np_le_trans)
    with Cons.prems xy False show ?thesis by simp
  qed
qed

lemma sorted_stable_sort_desc:
  "\<forall>x\<in>set xs. snd x \<noteq> NaN \<Longrightarrow> sorted_wrt (\<lambda>a b. np_le (snd b) (snd a)) (stable_sort_desc xs)"
proof (induction xs)
  case Nil
  then show ?case by (simp add: stable_sort_desc_def)
next
  case (Cons x xs)
  then have "sorted_wrt (\<lambda>a b. np_le (snd b) (snd a)) (insert_desc x (stable_sort_desc xs))"
    by (intro sorted_insert_desc) (auto simp: set_stable_sort_desc)
  then show ?case by (simp add: stable_sort_desc_def)
qed

lemma np_lt_neq: "np_lt a b \<Longrightarrow> a \<noteq> b"
  by (cases a; cases b) auto

lemma filter_insert_desc:
  "filter (\<lambda>y. snd y = s) (insert_desc x ys) = filter (\<lambda>y. snd y = s) (x # ys)"
  by (induction ys) (auto dest: np_lt_neq)

lemma filter_stable_sort_desc: "filter (\<lambda>y. snd y = s) (stable_sort_desc xs) = filter (\<lambda>y. snd y = s) xs"
proof (induction xs)
  case Nil
  then show ?case by (simp add: stable_sort_desc_def)
next
  case (Cons x xs)
  have "filter (\<lambda>y. snd y = s) (stable_sort_desc (x # xs)) = filter (\<lambda>y. snd y = s) (x # stable_sort_desc xs)"
    by (simp add: stable_sort_desc_def filter_insert_desc)
  with Cons show ?case by simp
qed

lemma slice_to_take: "\<exists>n. slice_to xs k = take n xs"
  by (auto simp: slice_to_def)

lemma slice_to_one: "slice_to xs 1 = take 1 xs"
  by (simp add: slice_to_def)

lemma length_slice_to: "0 \<le> k \<Longrightarrow> int (length (slice_to xs k)) \<le> k"
  by (simp add: slice_to_def)

lemma slice_to_all: "int (length xs) \<le> k \<Longrightarrow> slice_to xs k = xs"
  by (simp add: slice_to_def)

lemma prefix_filter_take: "prefix (filter P (take n xs)) (filter P xs)"
proof -
  have "filter P xs = filter P (take n xs) @ filter P (drop n xs)"
    by (metis append_take_drop_id filter_append)
  then show ?thesis by (metis prefixI)
qed

lemma length_embed_all: "length (fst (embed_all charrefs eng emails trace)) = length emails"
proof (induction emails arbitrary: trace)
  case Nil
  then show ?case by simp
next
  case (Cons e es)
  obtain v t1 where a: "create_email_embedding charrefs eng e trace = (v, t1)"
    by (cases "create_email_embedding charrefs eng e trace")
  obtain vs t2 where b: "embed_all charrefs eng es t1 = (vs, t2)"
    by (cases "embed_all charrefs eng es t1")
  from Cons [of t1] b have "length vs = length es" by simp
  with a b show ?case by simp
qed

lemma compute_similarity_cases:
  "compute_similarity q vs = Inl ValueError \<or> compute_similarity q vs = Inr (map (\<lambda>v. np_dot v q) vs)"
  unfolding compute_similarity_def by (simp only: list.map split: if_split) blast

lemma compute_similarity_Inr:
  assumes "compute_similarity q vs = Inr sims"
  shows "sims = map (\<lambda>v. np_dot v q) vs"
  using assms compute_similarity_cases [of q vs] by (metis Inl_Inr_False sum.inject(2))

lemma compute_similarity_length:
  "compute_similarity q vs = Inr sims \<Longrightarrow> length sims = length vs"
  by (drule compute_similarity_Inr) simp

lemma score_emails_zip:
  assumes "score_emails charrefs eng query emails trace = (Inr email_scores, trace')"
  shows "\<exists>sims. email_scores = zip emails sims \<and> length sims = length emails"
proof -
  obtain q t1 where a: "create_query_embedding eng query trace = (q, t1)"
    by (cases "create_query_embedding eng query trace")
  obtain vs t2 where b: "embed_all charrefs eng emails t1 = (vs, t2)"
    by (cases "embed_all charrefs eng emails t1")
  have lv: "length vs = length emails"
    using length_embed_all [of charrefs eng emails t1] b by simp
  from assms a b obtain sims where c: "compute_similarity q vs = Inr sims"
    and d: "email_scores = zip emails sims"
    by (cases "compute_similarity q vs") (simp_all add: score_emails_def)
  from c have "length sims = length vs" by (rule compute_similarity_length)
  with lv d show ?thesis by auto
qed

lemma score_emails_fst:
  assumes "score_emails charrefs eng query emails trace = (Inr email_scores, trace')"
  shows "map fst email_scores = emails" and "length email_scores = length emails"
  using score_emails_zip [OF assms] by auto

lemma toy_scores:
  "score_emails charrefs toy_engine ''a'' [mail ''b'', mail ''c'', mail ''a''] [] =
     (Inr [(mail ''b'', Fin 0), (mail ''c'', Fin (3 / 5)), (mail ''a'', Fin 1)],
      [''a'', ''b b '', ''c c '', ''a a ''])"
  by (simp add: score_emails_def create_query_embedding_def create_email_embedding_def
      toy_engine_def toy_encode_def mail_def strip_def is_space_def clean_email_body_def
      np_divide_def np_norm_def compute_similarity_def np_dot_def)

lemma toy_scores_low:
  "score_emails charrefs toy_engine ''a'' [mail ''d'', mail ''b'', mail ''b''] [] =
     (Inr [(mail ''d'', Fin (- 1)), (mail ''b'', Fin 0), (mail ''b'', Fin 0)],
      [''a'', ''d d '', ''b b '', ''b b ''])"
  by (simp add: score_emails_def create_query_embedding_def create_email_embedding_def
      toy_engine_def toy_encode_def mail_def strip_def is_space_def clean_email_body_def
      np_divide_def np_norm_def compute_similarity_def np_dot_def)

lemma np_lt_not_ge: "np_lt s (Fin t) \<Longrightarrow> \<not> np_ge s t"
  by (cases s) auto

lemma np_lt_not_NaN: "np_lt s t \<Longrightarrow> s \<noteq> NaN"
  by (cases s) auto

lemma np_ge_not_NaN: "np_ge s t \<Longrightarrow> s \<noteq> NaN"
  by (cases s) auto

lemma hd_stable_sort_desc_greatest:
  assumes "xs \<noteq> []" and "\<forall>x\<in>set xs. snd x \<noteq> NaN"
  shows "hd (stable_sort_desc xs) \<in> set xs"
    and "\<forall>x\<in>set xs. np_le (snd x) (snd (hd (stable_sort_desc xs)))"
    and "hd (filter (\<lambda>x. snd x = snd (hd (stable_sort_desc xs))) xs) = hd (stable_sort_desc xs)"
proof -
  from assms(1) obtain b rest where br: "stable_sort_desc xs = b # rest"
    by (cases "stable_sort_desc xs") (auto simp: stable_sort_desc_Nil_iff)
  have "set (b # rest) = set xs" using set_stable_sort_desc [of xs] br by simp
  then have bin: "b \<in> set xs" and sub: "set rest \<subseteq> set xs" by auto
  show "hd (stable_sort_desc xs) \<in> set xs" using br bin by simp
  have "sorted_wrt (\<lambda>a b. np_le (snd b) (snd a)) (b # rest)"
    using sorted_stable_sort_desc [OF assms(2)] br by simp
  then have rest_le: "\<forall>x\<in>set rest. np_le (snd x) (snd b)" by simp
  have "np_le (snd b) (snd b)" using assms(2) bin by (simp add: np_le_refl)
  with rest_le \<open>set (b # rest) = set xs\<close> have "\<forall>x\<in>set xs. np_le (snd x) (snd b)" by auto
  then show "\<forall>x\<in>set xs. np_le (snd x) (snd (hd (stable_sort_desc xs)))" using br by simp
  have "filter (\<lambda>x. snd x = snd b) xs = filter (\<lambda>x. snd x = snd b) (b # rest)"
    using filter_stable_sort_desc [of "snd b" xs] br by simp
  then have "hd (filter (\<lambda>x. snd x = snd b) xs) = b" by simp
  then show "hd (filter (\<lambda>x. snd x = snd (hd (stable_sort_desc xs))) xs) = hd (stable_sort_desc xs)"
    using br by simp
qed

lemma set_take_drop: "set (take n xs) \<union> set (drop n xs) = set xs"
  by (metis append_take_drop_id set_append)

lemma set_insert_at: "set (take n xs @ [x] @ drop n xs) = insert x (set xs)"
  using set_take_drop [of n xs] by auto

lemma length_insert_at: "length (take n xs @ [x] @ drop n xs) = Suc (length xs)"
  by simp

lemma set_binary_insert: "set (binary_insert run x) = insert x (set run)"
  unfolding binary_insert_def Let_def by (rule set_insert_at)

lemma length_binary_insert: "length (binary_insert run x) = Suc (length run)"
  unfolding binary_insert_def Let_def by (rule length_insert_at)

lemma set_foldl_binary_insert: "set (foldl binary_insert run xs) = set run \<union> set xs"
  by (induction xs arbitrary: run) (auto simp: set_binary_insert)

lemma length_foldl_binary_insert: "length (foldl binary_insert run xs) = length run + length xs"
  by (induction xs arbitrary: run) (simp_all add: length_binary_insert)

lemma set_binarysort: "set (binarysort xs) = set xs"
proof -
  obtain n d where c: "count_run (map snd xs) = (n, d)" by (cases "count_run (map snd xs)")
  have "set (take n xs) \<union> set (drop n xs) = set xs" by (metis append_take_drop_id set_append)
  then show ?thesis by (simp add: binarysort_def c set_foldl_binary_insert)
qed

lemma length_binarysort: "length (binarysort xs) = length xs"
proof -
  obtain n d where c: "count_run (map snd xs) = (n, d)" by (cases "count_run (map snd xs)")
  show ?thesis by (simp add: binarysort_def c length_foldl_binary_insert)
qed

lemma set_permute_by: "set (permute_by rank xs) = set xs"
proof -
  have "set (permute_by rank xs) = (\<lambda>i. xs ! i) ` {0 ..< length xs}"
    by (simp add: permute_by_def)
  also have "\<dots> = set xs" by (simp add: set_conv_nth image_def Bex_def conj_commute)
  finally show ?thesis .
qed

lemma length_permute_by: "length (permute_by rank xs) = length xs"
  by (simp add: permute_by_def)

lemma set_list_sort_reverse: "set (list_sort_reverse merge_order xs) = set xs"
  by (simp add: list_sort_reverse_def set_stable_sort_desc set_binarysort set_permute_by)

lemma length_list_sort_reverse: "length (list_sort_reverse merge_order xs) = length xs"
  by (simp add: list_sort_reverse_def length_stable_sort_desc length_binarysort length_permute_by)

lemma list_sort_reverse_Nil_iff: "list_sort_reverse merge_order xs = [] \<longleftrightarrow> xs = []"
  using length_list_sort_reverse [of merge_order xs] by auto

lemma list_sort_reverse_numbers:
  "\<forall>x\<in>set xs. snd x \<noteq> NaN \<Longrightarrow> list_sort_reverse merge_order xs = stable_sort_desc xs"
  by (auto simp: list_sort_reverse_def)

lemma semantic_search_fallback:
  assumes "emails \<noteq> []"
    and "score_emails charrefs eng query emails trace = (Inr email_scores, trace')"
    and "\<forall>x\<in>set email_scores.
           \<not> np_ge (snd x) (case min_threshold of Some t \<Rightarrow> t | None \<Rightarrow> similarity_threshold eng)"
  shows "semantic_search merge_order charrefs eng query emails top_k min_threshold trace =
           (Inr (take 1 (list_sort_reverse merge_order email_scores)), trace')"
proof -
  have "filter (\<lambda>(email, score). np_ge score
          (case min_threshold of Some t \<Rightarrow> t | None \<Rightarrow> similarity_threshold eng)) email_scores = []"
    using assms(3) by (auto simp: filter_empty_conv)
  moreover have "email_scores \<noteq> []" using score_emails_fst(2) [OF assms(2)] assms(1) by auto
  ultimately show ?thesis using assms(1,2)
    by (simp add: semantic_search_def slice_to_one)
qed

lemma semantic_search_ranked:
  assumes "score_emails charrefs eng query emails trace = (Inr email_scores, trace')"
    and "filter (\<lambda>(email, score). np_ge score
          (case min_threshold of Some t \<Rightarrow> t | None \<Rightarrow> similarity_threshold eng)) email_scores \<noteq> []"
  shows "semantic_search merge_order charrefs eng query emails top_k min_threshold trace =
           (Inr (slice_to (stable_sort_desc (filter (\<lambda>(email, score). np_ge score
              (case min_threshold of Some t \<Rightarrow> t | None \<Rightarrow> similarity_threshold eng)) email_scores)) top_k), trace')"
proof -
  have "email_scores \<noteq> []" using assms(2) by auto
  then have ne: "emails \<noteq> []" using score_emails_fst(2) [OF assms(1)] by auto
  have "\<forall>x\<in>set (filter (\<lambda>(email, score). np_ge score
          (case min_threshold of Some t \<Rightarrow> t | None \<Rightarrow> similarity_threshold eng)) email_scores).
          snd x \<noteq> NaN"
    by (auto dest: np_ge_not_NaN)
  then have "list_sort_reverse merge_order (filter (\<lambda>(email, score). np_ge score
          (case min_threshold of Some t \<Rightarrow> t | None \<Rightarrow> similarity_threshold eng)) email_scores)
      = stable_sort_desc (filter (\<lambda>(email, score). np_ge score
          (case min_threshold of Some t \<Rightarrow> t | None \<Rightarrow> similarity_threshold eng)) email_scores)"
    by (rule list_sort_reverse_numbers)
  then show ?thesis using ne assms by (simp add: semantic_search_def)
qed

section \<open>Claims about the ranking\<close>

lemma toy_scores_nan:
  "score_emails charrefs toy_engine ''a'' [mail ''d'', mail ''z'', mail ''b''] [] =
     (Inr [(mail ''d'', Fin (- 1)), (mail ''z'', NaN), (mail ''b'', Fin 0)],
      [''a'', ''d d '', ''z z '', ''b b ''])"
  by (simp add: score_emails_def create_query_embedding_def create_email_embedding_def
      toy_engine_def toy_encode_def mail_def strip_def is_space_def clean_email_body_def
      np_divide_def np_norm_def compute_similarity_def np_dot_def)

lemma list_sort_reverse_nan_first:
  "list_sort_reverse merge_order [(1::nat, Fin (- 1)), (2, NaN), (3, Fin 0)]
     = [(1, Fin (- 1)), (2, NaN), (3, Fin 0)]"
  by (simp add: list_sort_reverse_def binarysort_def count_run_def)

lemma list_sort_reverse_nan_inserted:
  "list_sort_reverse merge_order [(1::nat, Fin (- 1)), (2, NaN), (3, Fin (- 1)), (4, Fin 0)]
     = [(2, NaN), (4, Fin 0), (1, Fin (- 1)), (3, Fin (- 1))]"
  by code_simp

text \<open>
  The claim C1 as stated fails when a score is not-a-number. Such a score does not reach
  the threshold, and \<open>list.sort\<close> cannot order it: for the scores -1, not-a-number and 0
  and the threshold 0.1 no email reaches the threshold, and the fallback returns the
  email that scores -1, not the one that scores 0.
\<close>

theorem fallback_nan_counterexample:
  "fst (score_emails id toy_engine ''a'' [mail ''d'', mail ''z'', mail ''b''] [])
     = Inr [(mail ''d'', Fin (- 1)), (mail ''z'', NaN), (mail ''b'', Fin 0)]
   \<and> list_all (\<lambda>x. \<not> np_ge (snd x) (1 / 10))
       [(mail ''d'', Fin (- 1)), (mail ''z'', NaN), (mail ''b'', Fin 0)]
   \<and> fst (semantic_search (\<lambda>ks. id) id toy_engine ''a'' [mail ''d'', mail ''z'', mail ''b''] 5 None [])
       = Inr [(mail ''d'', Fin (- 1))]
   \<and> np_lt (Fin (- 1)) (Fin 0)"
proof -
  have sc: "score_emails id toy_engine ''a'' [mail ''d'', mail ''z'', mail ''b''] [] =
     (Inr [(mail ''d'', Fin (- 1)), (mail ''z'', NaN), (mail ''b'', Fin 0)],
      [''a'', ''d d '', ''z z '', ''b b ''])"
    by (rule toy_scores_nan)
  have th: "similarity_threshold toy_engine = 1 / 10" by (simp add: toy_engine_def)
  show ?thesis
    by (simp add: semantic_search_def sc th slice_to_def list_sort_reverse_def binarysort_def
        count_run_def)
qed

text \<open>
  Claim C1 (fallback rule), as amended. Searching an empty corpus returns the empty
  result. For a non-empty corpus in which no score reaches the threshold (the given one,
  or the default of the engine), \<open>semantic_search\<close> returns exactly one scored email of
  the corpus, whatever \<open>top_k\<close> is. When all scores are numbers, its score is greatest
  among all scores of the unfiltered corpus, and it is the first email of the corpus
  with that score.
\<close>

theorem fallback_single_best:
  "(fst (semantic_search merge_order charrefs eng query [] top_k min_threshold trace) = Inr [])
   \<and> (emails \<noteq> [] \<longrightarrow>
        score_emails charrefs eng query emails trace = (Inr email_scores, trace') \<longrightarrow>
        (\<forall>x\<in>set email_scores.
           \<not> np_ge (snd x) (case min_threshold of Some t \<Rightarrow> t | None \<Rightarrow> similarity_threshold eng)) \<longrightarrow>
        (\<exists>best. fst (semantic_search merge_order charrefs eng query emails top_k min_threshold trace)
                  = Inr [best]
            \<and> best \<in> set email_scores
            \<and> ((\<forall>x\<in>set email_scores. snd x \<noteq> NaN) \<longrightarrow>
                 (\<forall>x\<in>set email_scores. np_le (snd x) (snd best))
                 \<and> hd (filter (\<lambda>x. snd x = snd best) email_scores) = best)))"
proof (intro conjI impI)
  show "fst (semantic_search merge_order charrefs eng query [] top_k min_threshold trace) = Inr []"
    by (simp add: semantic_search_def)
next
  assume ne: "emails \<noteq> []"
    and sc: "score_emails charrefs eng query emails trace = (Inr email_scores, trace')"
    and nge: "\<forall>x\<in>set email_scores.
           \<not> np_ge (snd x) (case min_threshold of Some t \<Rightarrow> t | None \<Rightarrow> similarity_threshold eng)"
  define S where "S = list_sort_reverse merge_order email_scores"
  have es: "email_scores \<noteq> []" using score_emails_fst(2) [OF sc] ne by auto
  then have "S \<noteq> []" by (simp add: S_def list_sort_reverse_Nil_iff)
  then have t: "take 1 S = [hd S]" and "hd S \<in> set S" by (cases S, simp_all)+
  then have mem: "hd S \<in> set email_scores" by (simp add: S_def set_list_sort_reverse)
  have res: "fst (semantic_search merge_order charrefs eng query emails top_k min_threshold trace)
               = Inr [hd S]"
    using semantic_search_fallback [OF ne sc nge] t by (simp add: S_def)
  have best: "(\<forall>x\<in>set email_scores. np_le (snd x) (snd (hd S)))
               \<and> hd (filter (\<lambda>x. snd x = snd (hd S)) email_scores) = hd S"
    if fin: "\<forall>x\<in>set email_scores. snd x \<noteq> NaN"
  proof -
    have "S = stable_sort_desc email_scores"
      unfolding S_def using fin by (rule list_sort_reverse_numbers)
    then show ?thesis using hd_stable_sort_desc_greatest [OF es fin] by simp
  qed
  from res mem best
  show "\<exists>best. fst (semantic_search merge_order charrefs eng query emails top_k min_threshold trace)
                  = Inr [best]
            \<and> best \<in> set email_scores
            \<and> ((\<forall>x\<in>set email_scores. snd x \<noteq> NaN) \<longrightarrow>
                 (\<forall>x\<in>set email_scores. np_le (snd x) (snd best))
                 \<and> hd (filter (\<lambda>x. snd x = snd best) email_scores) = best)"
    by blast
qed

theorem fallback_single_best_witness:
  "list_all (\<lambda>x. np_lt (snd x) (Fin (1 / 10)))
     [(mail ''d'', Fin (- 1)), (mail ''b'', Fin 0), (mail ''b'', Fin 0)]
   \<and> fst (semantic_search (\<lambda>ks. id) id toy_engine ''a'' [mail ''d'', mail ''b'', mail ''b''] 5 None [])
       = Inr [(mail ''b'', Fin 0)]"
proof -
  have low: "\<forall>x\<in>set [(mail ''d'', Fin (- 1)), (mail ''b'', Fin 0), (mail ''b'', Fin 0)].
               \<not> np_ge (snd x) (case None of Some t \<Rightarrow> t | None \<Rightarrow> similarity_threshold toy_engine)"
    by (simp add: toy_engine_def)
  have fin: "\<forall>x\<in>set [(mail ''d'', Fin (- 1)), (mail ''b'', Fin 0), (mail ''b'', Fin 0)]. snd x \<noteq> NaN"
    by simp
  have ne: "[mail ''d'', mail ''b'', mail ''b''] \<noteq> []" by simp
  from fallback_single_best [of "(\<lambda>ks. id)" id toy_engine "''a''" 5 None "[]"
      "[mail ''d'', mail ''b'', mail ''b'']"
      "[(mail ''d'', Fin (- 1)), (mail ''b'', Fin 0), (mail ''b'', Fin 0)]"
      "[''a'', ''d d '', ''b b '', ''b b '']"] ne toy_scores_low [of id] low fin
  obtain best where
    r: "fst (semantic_search (\<lambda>ks. id) id toy_engine ''a'' [mail ''d'', mail ''b'', mail ''b''] 5 None [])
          = Inr [best]"
    and m: "best \<in> set [(mail ''d'', Fin (- 1)), (mail ''b'', Fin 0), (mail ''b'', Fin 0)]"
    and g: "\<forall>x\<in>set [(mail ''d'', Fin (- 1)), (mail ''b'', Fin 0), (mail ''b'', Fin 0)].
              np_le (snd x) (snd best)"
    by blast
  from g have "np_le (Fin 0) (snd best)" by simp
  with m have "best = (mail ''b'', Fin 0)" by auto
  with r show ?thesis by simp
qed

lemma slice_to_Nil: "slice_to [] k = []"
  by (simp add: slice_to_def)

lemma slice_to_zero: "slice_to xs 0 = []"
  by (simp add: slice_to_def)

lemma slice_to_neg: "k < 0 \<Longrightarrow> slice_to xs k = take (length xs - nat (- k)) xs"
  by (simp add: slice_to_def)

lemma set_slice_to: "set (slice_to xs k) \<subseteq> set xs"
  using slice_to_take [of xs k] by (auto dest: in_set_takeD)

lemma filter_threshold_eq:
  "filter (\<lambda>(email, score). np_ge score t) xs = filter (\<lambda>x. np_ge (snd x) t) xs"
  by (simp add: case_prod_unfold)

lemma prefix_filter_filter:
  "prefix (filter (\<lambda>x. snd x = s) (filter (\<lambda>x. np_ge (snd x) t) xs)) (filter (\<lambda>x. snd x = s) xs)"
proof (cases "np_ge s t")
  case True
  then have "filter (\<lambda>x. snd x = s) (filter (\<lambda>x. np_ge (snd x) t) xs) = filter (\<lambda>x. snd x = s) xs"
    by (auto intro: filter_cong)
  then show ?thesis by simp
next
  case False
  then have "filter (\<lambda>x. snd x = s) (filter (\<lambda>x. np_ge (snd x) t) xs) = []"
    by (auto simp: filter_empty_conv)
  then show ?thesis by simp
qed

text \<open>
  Claim C3 (ordering). When at least one email reaches the threshold, the result is
  sorted by descending score; for every score, the emails of the result with that score
  are the first ones of the corpus with it, in corpus order (the sort is stable); every
  email of the result reaches the threshold; and for a non-negative \<open>top_k\<close> the
  result has at most \<open>top_k\<close> elements.
\<close>

theorem ranked_sorted_stable_bounded:
  assumes sc: "score_emails charrefs eng query emails trace = (Inr email_scores, trace')"
    and some: "\<exists>x\<in>set email_scores.
           np_ge (snd x) (case min_threshold of Some t \<Rightarrow> t | None \<Rightarrow> similarity_threshold eng)"
  shows "\<exists>result. fst (semantic_search merge_order charrefs eng query emails top_k min_threshold trace) = Inr result
      \<and> sorted_wrt (\<lambda>a b. np_le (snd b) (snd a)) result
      \<and> (\<forall>s. prefix (filter (\<lambda>x. snd x = s) result) (filter (\<lambda>x. snd x = s) email_scores))
      \<and> (\<forall>x\<in>set result.
           np_ge (snd x) (case min_threshold of Some t \<Rightarrow> t | None \<Rightarrow> similarity_threshold eng))
      \<and> (0 \<le> top_k \<longrightarrow> int (length result) \<le> top_k)"
proof -
  define t where "t = (case min_threshold of Some t \<Rightarrow> t | None \<Rightarrow> similarity_threshold eng)"
  define F where "F = filter (\<lambda>x. np_ge (snd x) t) email_scores"
  define R where "R = slice_to (stable_sort_desc F) top_k"
  have Fne: "F \<noteq> []" using some by (auto simp: F_def t_def filter_empty_conv)
  have res: "fst (semantic_search merge_order charrefs eng query emails top_k min_threshold trace) = Inr R"
    using semantic_search_ranked [OF sc, of min_threshold merge_order top_k] Fne
    by (simp add: F_def t_def R_def filter_threshold_eq)
  obtain n where n: "R = take n (stable_sort_desc F)"
    using slice_to_take [of "stable_sort_desc F" top_k] by (auto simp: R_def)
  have fin: "\<forall>x\<in>set F. snd x \<noteq> NaN" by (auto simp: F_def dest: np_ge_not_NaN)
  have srt: "sorted_wrt (\<lambda>a b. np_le (snd b) (snd a)) R"
    using sorted_stable_sort_desc [OF fin] by (simp add: n sorted_wrt_take)
  have stab: "prefix (filter (\<lambda>x. snd x = s) R) (filter (\<lambda>x. snd x = s) email_scores)" for s
  proof -
    have "prefix (filter (\<lambda>x. snd x = s) R) (filter (\<lambda>x. snd x = s) (stable_sort_desc F))"
      unfolding n by (rule prefix_filter_take)
    also have "filter (\<lambda>x. snd x = s) (stable_sort_desc F) = filter (\<lambda>x. snd x = s) F"
      by (rule filter_stable_sort_desc)
    finally show ?thesis
      using prefix_filter_filter [of s t email_scores] by (auto simp: F_def intro: prefix_order.trans)
  qed
  have sub: "set R \<subseteq> set F" using set_slice_to [of "stable_sort_desc F" top_k] by (simp add: R_def set_stable_sort_desc)
  then have thr: "\<forall>x\<in>set R. np_ge (snd x) t" by (auto simp: F_def)
  have len: "0 \<le> top_k \<longrightarrow> int (length R) \<le> top_k" by (simp add: R_def length_slice_to)
  from res srt stab thr len show ?thesis unfolding t_def by blast
qed

text \<open>
  Claim C2, as amended. The code has no rule for \<open>top_k \<le> 0\<close>; what it returns follows
  from the slice \<open>[:top_k]\<close> and from the fallback, which does not look at \<open>top_k\<close>.
  For \<open>top_k \<le> 0\<close>: when some email reaches the threshold, the result is empty for
  \<open>top_k = 0\<close> and, for \<open>top_k = -k\<close>, the ranked thresholded emails without the last
  \<open>k\<close>; when the corpus is non-empty and no email reaches the threshold, the fallback
  still returns exactly one email.
\<close>

theorem nonpositive_top_k:
  assumes k: "top_k \<le> 0"
    and sc: "score_emails charrefs eng query emails trace = (Inr email_scores, trace')"
  shows "((\<exists>x\<in>set email_scores.
             np_ge (snd x) (case min_threshold of Some t \<Rightarrow> t | None \<Rightarrow> similarity_threshold eng)) \<longrightarrow>
          fst (semantic_search merge_order charrefs eng query emails top_k min_threshold trace) =
            Inr (if top_k = 0 then []
                 else take (length (filter (\<lambda>x. np_ge (snd x)
                        (case min_threshold of Some t \<Rightarrow> t | None \<Rightarrow> similarity_threshold eng)) email_scores)
                       - nat (- top_k))
                   (stable_sort_desc (filter (\<lambda>x. np_ge (snd x)
                        (case min_threshold of Some t \<Rightarrow> t | None \<Rightarrow> similarity_threshold eng)) email_scores))))
       \<and> (emails \<noteq> [] \<longrightarrow>
          (\<forall>x\<in>set email_scores.
             \<not> np_ge (snd x) (case min_threshold of Some t \<Rightarrow> t | None \<Rightarrow> similarity_threshold eng)) \<longrightarrow>
          (\<exists>best. fst (semantic_search merge_order charrefs eng query emails top_k min_threshold trace) = Inr [best]))"
proof (intro conjI impI)
  define t where "t = (case min_threshold of Some t \<Rightarrow> t | None \<Rightarrow> similarity_threshold eng)"
  define F where "F = filter (\<lambda>x. np_ge (snd x) t) email_scores"
  assume "\<exists>x\<in>set email_scores.
             np_ge (snd x) (case min_threshold of Some t \<Rightarrow> t | None \<Rightarrow> similarity_threshold eng)"
  then have Fne: "F \<noteq> []" by (auto simp: F_def t_def filter_empty_conv)
  have "fst (semantic_search merge_order charrefs eng query emails top_k min_threshold trace)
          = Inr (slice_to (stable_sort_desc F) top_k)"
    using semantic_search_ranked [OF sc, of min_threshold merge_order top_k] Fne
    by (simp add: F_def t_def filter_threshold_eq)
  moreover have "slice_to (stable_sort_desc F) top_k =
      (if top_k = 0 then [] else take (length F - nat (- top_k)) (stable_sort_desc F))"
    using k by (cases "top_k = 0") (simp_all add: slice_to_zero slice_to_neg length_stable_sort_desc)
  ultimately show "fst (semantic_search merge_order charrefs eng query emails top_k min_threshold trace) =
            Inr (if top_k = 0 then []
                 else take (length (filter (\<lambda>x. np_ge (snd x)
                        (case min_threshold of Some t \<Rightarrow> t | None \<Rightarrow> similarity_threshold eng)) email_scores)
                       - nat (- top_k))
                   (stable_sort_desc (filter (\<lambda>x. np_ge (snd x)
                        (case min_threshold of Some t \<Rightarrow> t | None \<Rightarrow> similarity_threshold eng)) email_scores)))"
    by (simp add: F_def t_def)
next
  assume ne: "emails \<noteq> []"
    and low: "\<forall>x\<in>set email_scores.
             \<not> np_ge (snd x) (case min_threshold of Some t \<Rightarrow> t | None \<Rightarrow> similarity_threshold eng)"
  have "email_scores \<noteq> []" using score_emails_fst(2) [OF sc] ne by auto
  then have "list_sort_reverse merge_order email_scores \<noteq> []"
    by (simp add: list_sort_reverse_Nil_iff)
  then have "take 1 (list_sort_reverse merge_order email_scores)
               = [hd (list_sort_reverse merge_order email_scores)]"
    by (cases "list_sort_reverse merge_order email_scores") simp_all
  then show "\<exists>best. fst (semantic_search merge_order charrefs eng query emails top_k min_threshold trace) = Inr [best]"
    using semantic_search_fallback [OF ne sc low] by simp
qed

lemma scored_results:
  assumes ne: "emails \<noteq> []"
    and sc: "score_emails charrefs eng query emails trace = (Inr email_scores, trace')"
  shows "\<exists>r. semantic_search merge_order charrefs eng query emails (int (length emails)) min_threshold trace
           = (Inr r, trace') \<and> r \<noteq> [] \<and> set r \<subseteq> set email_scores"
proof -
  define t where "t = (case min_threshold of Some t \<Rightarrow> t | None \<Rightarrow> similarity_threshold eng)"
  define F where "F = filter (\<lambda>x. np_ge (snd x) t) email_scores"
  have es: "email_scores \<noteq> []" and len: "length email_scores = length emails"
    using score_emails_fst(2) [OF sc] ne by auto
  show ?thesis
  proof (cases "F = []")
    case True
    then have low: "\<forall>x\<in>set email_scores. \<not> np_ge (snd x)
        (case min_threshold of Some t \<Rightarrow> t | None \<Rightarrow> similarity_threshold eng)"
      by (auto simp: F_def t_def filter_empty_conv)
    have "list_sort_reverse merge_order email_scores \<noteq> []"
      using es by (simp add: list_sort_reverse_Nil_iff)
    then have "take 1 (list_sort_reverse merge_order email_scores) \<noteq> []"
      by (cases "list_sort_reverse merge_order email_scores") simp_all
    moreover have "set (take 1 (list_sort_reverse merge_order email_scores)) \<subseteq> set email_scores"
      using set_take_subset [of 1 "list_sort_reverse merge_order email_scores"]
      by (simp add: set_list_sort_reverse)
    ultimately show ?thesis
      using semantic_search_fallback [OF ne sc low] by simp
  next
    case False
    have "length F \<le> length email_scores" unfolding F_def by (rule length_filter_le)
    then have "length F \<le> length emails" using len by simp
    then have "slice_to (stable_sort_desc F) (int (length emails)) = stable_sort_desc F"
      by (simp add: slice_to_all length_stable_sort_desc)
    moreover have "stable_sort_desc F \<noteq> []" using False by (simp add: stable_sort_desc_Nil_iff)
    moreover have "set (stable_sort_desc F) \<subseteq> set email_scores" by (auto simp: set_stable_sort_desc F_def)
    ultimately show ?thesis
      using semantic_search_ranked [OF sc, of min_threshold merge_order "int (length emails)"] False
      by (simp add: F_def t_def filter_threshold_eq)
  qed
qed

text \<open>
  Claim C10. \<open>search_with_threshold\<close> gives no guarantee of one result: for a non-empty
  corpus in which no score reaches the given threshold it returns the empty list,
  although the inner \<open>semantic_search\<close> (default threshold, \<open>top_k\<close> the size of the
  corpus) returns a non-empty list.
\<close>

theorem search_with_threshold_no_fallback:
  assumes ne: "emails \<noteq> []"
    and sc: "score_emails charrefs eng query emails trace = (Inr email_scores, trace')"
    and low: "\<forall>x\<in>set email_scores. \<not> np_ge (snd x) threshold"
  shows "fst (search_with_threshold merge_order charrefs eng query emails threshold top_k trace) = Inr []
       \<and> (\<exists>r. fst (semantic_search merge_order charrefs eng query emails (int (length emails)) None trace) = Inr r
              \<and> r \<noteq> [])"
proof -
  obtain r where r: "semantic_search merge_order charrefs eng query emails (int (length emails)) None trace
           = (Inr r, trace')" and rne: "r \<noteq> []" and sub: "set r \<subseteq> set email_scores"
    using scored_results [OF ne sc, of merge_order None] by blast
  have "\<forall>x\<in>set r. \<not> np_ge (snd x) threshold" using low sub by blast
  then have "filter (\<lambda>(email, score). np_ge score threshold) r = []"
    by (simp add: filter_threshold_eq filter_empty_conv)
  then have "fst (search_with_threshold merge_order charrefs eng query emails threshold top_k trace) = Inr []"
    using r by (simp add: search_with_threshold_def slice_to_Nil)
  with r rne show ?thesis by simp
qed

text \<open>
  Claim C9. Searching an empty corpus returns the empty result and leaves the record of
  the model calls as it was: neither the query nor an email is embedded.
\<close>

theorem empty_corpus_no_embedding:
  "semantic_search merge_order charrefs eng query [] top_k min_threshold trace = (Inr [], trace)"
  by (simp add: semantic_search_def)

lemmas toy_defs = score_emails_def create_query_embedding_def create_email_embedding_def
  toy_engine_def toy_encode_def mail_def strip_def is_space_def clean_email_body_def
  np_divide_def np_norm_def compute_similarity_def np_dot_def

lemma toy_scores_ties:
  "score_emails charrefs toy_engine ''a'' [mail ''c'', mail ''ax'', mail ''b'', mail ''a''] [] =
     (Inr [(mail ''c'', Fin (3 / 5)), (mail ''ax'', Fin 1), (mail ''b'', Fin 0), (mail ''a'', Fin 1)],
      [''a'', ''c c '', ''ax ax '', ''b b '', ''a a ''])"
  by (simp add: toy_defs)

lemma toy_scores_single:
  "score_emails charrefs toy_engine ''a'' [mail ''b''] [] = (Inr [(mail ''b'', Fin 0)], [''a'', ''b b ''])"
  by (simp add: toy_defs)

lemma toy_threshold: "similarity_threshold toy_engine = 1 / 10"
  by (simp add: toy_engine_def)

lemma toy_search_ties_2:
  "fst (semantic_search (\<lambda>ks. id) id toy_engine ''a'' [mail ''c'', mail ''ax'', mail ''b'', mail ''a''] 2 None [])
     = Inr [(mail ''ax'', Fin 1), (mail ''a'', Fin 1)]"
  by (simp add: semantic_search_def toy_scores_ties toy_threshold list_sort_reverse_def
      stable_sort_desc_def slice_to_def)

theorem ranked_sorted_stable_bounded_witness:
  "fst (semantic_search (\<lambda>ks. id) id toy_engine ''a'' [mail ''c'', mail ''ax'', mail ''b'', mail ''a''] 2 None [])
     = Inr [(mail ''ax'', Fin 1), (mail ''a'', Fin 1)]
   \<and> sorted_wrt (\<lambda>a b. np_le (snd b) (snd a)) [(mail ''ax'', Fin 1), (mail ''a'', Fin 1)]
   \<and> prefix (filter (\<lambda>x. snd x = Fin 1) [(mail ''ax'', Fin 1), (mail ''a'', Fin 1)])
       (filter (\<lambda>x. snd x = Fin 1)
          [(mail ''c'', Fin (3 / 5)), (mail ''ax'', Fin 1), (mail ''b'', Fin 0), (mail ''a'', Fin 1)])
   \<and> int (length [(mail ''ax'', Fin 1), (mail ''a'', Fin 1)]) \<le> 2"
proof -
  have some: "\<exists>x\<in>set [(mail ''c'', Fin (3 / 5)), (mail ''ax'', Fin 1), (mail ''b'', Fin 0), (mail ''a'', Fin 1)].
      np_ge (snd x) (case None of Some t \<Rightarrow> t | None \<Rightarrow> similarity_threshold toy_engine)"
    by (simp add: toy_threshold)
  from ranked_sorted_stable_bounded [OF toy_scores_ties [of id] some, of "(\<lambda>ks. id)" 2]
  obtain result where
    r: "fst (semantic_search (\<lambda>ks. id) id toy_engine ''a'' [mail ''c'', mail ''ax'', mail ''b'', mail ''a''] 2 None [])
          = Inr result"
    and s: "sorted_wrt (\<lambda>a b. np_le (snd b) (snd a)) result"
    and p: "\<forall>s. prefix (filter (\<lambda>x. snd x = s) result) (filter (\<lambda>x. snd x = s)
          [(mail ''c'', Fin (3 / 5)), (mail ''ax'', Fin 1), (mail ''b'', Fin 0), (mail ''a'', Fin 1)])"
    and l: "0 \<le> (2::int) \<longrightarrow> int (length result) \<le> 2"
    by blast
  from r toy_search_ties_2 have e: "result = [(mail ''ax'', Fin 1), (mail ''a'', Fin 1)]" by simp
  from p have "prefix (filter (\<lambda>x. snd x = Fin 1) result) (filter (\<lambda>x. snd x = Fin 1)
          [(mail ''c'', Fin (3 / 5)), (mail ''ax'', Fin 1), (mail ''b'', Fin 0), (mail ''a'', Fin 1)])"
    by blast
  with r s l show ?thesis unfolding e by simp
qed

text \<open>
  The claim C2 as stated fails: with \<open>top_k = 0\<close> and one email below the threshold the
  fallback returns that email, and with \<open>top_k = -1\<close> and three emails above the
  threshold two of them are returned.
\<close>

theorem top_k_zero_counterexample:
  "fst (semantic_search (\<lambda>ks. id) id toy_engine ''a'' [mail ''b''] 0 None []) = Inr [(mail ''b'', Fin 0)]
   \<and> fst (semantic_search (\<lambda>ks. id) id toy_engine ''a'' [mail ''c'', mail ''ax'', mail ''b'', mail ''a''] (- 1) None [])
       = Inr [(mail ''ax'', Fin 1), (mail ''a'', Fin 1)]"
  by (simp add: semantic_search_def toy_scores_single toy_scores_ties toy_threshold
      list_sort_reverse_def stable_sort_desc_def
      slice_to_def)

theorem nonpositive_top_k_witness:
  "(- 1 :: int) \<le> 0
   \<and> fst (semantic_search (\<lambda>ks. id) id toy_engine ''a'' [mail ''c'', mail ''ax'', mail ''b'', mail ''a''] (- 1) None [])
       = Inr [(mail ''ax'', Fin 1), (mail ''a'', Fin 1)]
   \<and> (\<exists>best. fst (semantic_search (\<lambda>ks. id) id toy_engine ''a'' [mail ''b''] 0 None []) = Inr [best])"
proof -
  have k: "(- 1 :: int) \<le> 0" by simp
  have some: "\<exists>x\<in>set [(mail ''c'', Fin (3 / 5)), (mail ''ax'', Fin 1), (mail ''b'', Fin 0), (mail ''a'', Fin 1)].
      np_ge (snd x) (case None of Some t \<Rightarrow> t | None \<Rightarrow> similarity_threshold toy_engine)"
    by (simp add: toy_threshold)
  from nonpositive_top_k [OF k toy_scores_ties [of id], of None "(\<lambda>ks. id)"] some
  have a: "fst (semantic_search (\<lambda>ks. id) id toy_engine ''a'' [mail ''c'', mail ''ax'', mail ''b'', mail ''a''] (- 1) None [])
       = Inr [(mail ''ax'', Fin 1), (mail ''a'', Fin 1)]"
    by (simp add: toy_threshold stable_sort_desc_def)
  have low: "\<forall>x\<in>set [(mail ''b'', Fin 0)].
      \<not> np_ge (snd x) (case None of Some t \<Rightarrow> t | None \<Rightarrow> similarity_threshold toy_engine)"
    by (simp add: toy_threshold)
  have z: "(0::int) \<le> 0" by simp
  from nonpositive_top_k [OF z toy_scores_single [of id], of None "(\<lambda>ks. id)"] low
  have b: "\<exists>best. fst (semantic_search (\<lambda>ks. id) id toy_engine ''a'' [mail ''b''] 0 None []) = Inr [best]"
    by simp
  from k a b show ?thesis by simp
qed

theorem search_with_threshold_no_fallback_witness:
  "list_all (\<lambda>x. \<not> np_ge (snd x) (3 / 10))
     [(mail ''d'', Fin (- 1)), (mail ''b'', Fin 0), (mail ''b'', Fin 0)]
   \<and> fst (search_with_threshold (\<lambda>ks. id) id toy_engine ''a'' [mail ''d'', mail ''b'', mail ''b''] (3 / 10) 10 [])
       = Inr []
   \<and> (\<exists>r. fst (semantic_search (\<lambda>ks. id) id toy_engine ''a'' [mail ''d'', mail ''b'', mail ''b''] 3 None []) = Inr r
          \<and> r \<noteq> [])"
proof -
  have ne: "[mail ''d'', mail ''b'', mail ''b''] \<noteq> []" by simp
  have low: "\<forall>x\<in>set [(mail ''d'', Fin (- 1)), (mail ''b'', Fin 0), (mail ''b'', Fin 0)].
      \<not> np_ge (snd x) (3 / 10)"
    by simp
  from search_with_threshold_no_fallback [OF ne toy_scores_low [of id] low, of "(\<lambda>ks. id)" 10]
  show ?thesis by simp
qed

section \<open>Properties of the embedded text and of the scores\<close>


lemma create_email_embedding_text:
  "create_email_embedding charrefs eng e trace =
     (np_divide (encode eng (email_text charrefs e)) (np_norm (encode eng (email_text charrefs e))),
      trace @ [email_text charrefs e])"
  by (simp add: create_email_embedding_def email_text_def email_subject_def email_body_def Let_def)

lemma embed_all_map:
  "embed_all charrefs eng emails trace =
     (map (\<lambda>e. np_divide (encode eng (email_text charrefs e))
                  (np_norm (encode eng (email_text charrefs e)))) emails,
      trace @ map (email_text charrefs) emails)"
  by (induction emails arbitrary: trace) (simp_all add: create_email_embedding_text)

lemma dropWhile_all_iff: "(\<forall>x\<in>set (dropWhile P s). P x) \<longleftrightarrow> (\<forall>x\<in>set s. P x)"
proof
  assume a: "\<forall>x\<in>set (dropWhile P s). P x"
  have "dropWhile P s = []"
  proof (rule ccontr)
    assume n: "dropWhile P s \<noteq> []"
    then have "\<not> P (hd (dropWhile P s))" by (rule hd_dropWhile)
    moreover have "hd (dropWhile P s) \<in> set (dropWhile P s)" using n by simp
    ultimately show False using a by blast
  qed
  then show "\<forall>x\<in>set s. P x" by (simp add: dropWhile_eq_Nil_conv)
next
  assume "\<forall>x\<in>set s. P x"
  then show "\<forall>x\<in>set (dropWhile P s). P x" by (auto dest: set_dropWhileD)
qed

lemma strip_Nil_iff: "strip s = [] \<longleftrightarrow> (\<forall>c\<in>set s. is_space c)"
  by (simp add: strip_def dropWhile_eq_Nil_conv dropWhile_all_iff)

lemma foldl_np_add_NaN: "foldl np_add NaN xs = NaN"
  by (induction xs) simp_all

lemma foldl_np_add_has_NaN: "NaN \<in> set xs \<Longrightarrow> foldl np_add a xs = NaN"
proof (induction xs arbitrary: a)
  case Nil
  then show ?case by simp
next
  case (Cons x xs)
  show ?case
  proof (cases "x = NaN")
    case True
    then have "np_add a x = NaN" by (cases a) simp_all
    then show ?thesis by (simp add: foldl_np_add_NaN)
  next
    case False
    with Cons show ?thesis by simp
  qed
qed

lemma np_mul_NaN: "np_mul NaN b = NaN" "np_mul a NaN = NaN"
  by (cases a, simp_all)

lemma np_dot_all_NaN_left:
  assumes "u \<noteq> []" "length v = length u" "\<forall>x\<in>set u. x = NaN"
  shows "np_dot u v = NaN"
proof -
  from assms obtain a u' b v' where u: "u = a # u'" and v: "v = b # v'"
    by (cases u; cases v) auto
  with assms(3) have "a = NaN" by simp
  then have "NaN \<in> set (map2 np_mul u v)" by (simp add: u v)
  then show ?thesis unfolding np_dot_def by (rule foldl_np_add_has_NaN)
qed

lemma np_dot_all_NaN_right:
  assumes "u \<noteq> []" "length v = length u" "\<forall>x\<in>set v. x = NaN"
  shows "np_dot u v = NaN"
proof -
  from assms obtain a u' b v' where u: "u = a # u'" and v: "v = b # v'"
    by (cases u; cases v) auto
  with assms(3) have "b = NaN" by simp
  then have "np_mul a b = NaN" by (cases a) simp_all
  then have "NaN \<in> set (map2 np_mul u v)" by (simp add: u v)
  then show ?thesis unfolding np_dot_def by (rule foldl_np_add_has_NaN)
qed

lemma np_divide_zero: "np_divide v 0 = replicate (length v) NaN"
  by (simp add: np_divide_def map_replicate_const)

lemma length_np_divide: "length (np_divide v n) = length v"
  by (simp add: np_divide_def)

lemma compute_similarity_shapes:
  assumes "compute_similarity q vs = Inr sims" and "v \<in> set vs"
  shows "length v = length q"
proof -
  have ne: "vs \<noteq> []" using assms(2) by auto
  have "\<not> (\<exists>v \<in> set vs. length v \<noteq> length (hd vs)) \<and> length (hd vs) = length q"
  proof (rule ccontr)
    assume "\<not> ?thesis"
    then have "compute_similarity q vs = Inl ValueError"
      using ne unfolding compute_similarity_def by (simp only: if_False if_True split: if_split) blast
    with assms(1) show False by simp
  qed
  with assms(2) show ?thesis by auto
qed

lemma last_dropWhile: "dropWhile P xs \<noteq> [] \<Longrightarrow> last (dropWhile P xs) = last xs"
  by (induction xs) (auto split: if_splits)

lemma strip_ends:
  assumes "strip s \<noteq> []"
  shows "\<not> is_space (hd (strip s))" and "\<not> is_space (last (strip s))"
proof -
  define D where "D = dropWhile is_space s"
  define X where "X = dropWhile is_space (rev D)"
  have s: "strip s = rev X" by (simp add: strip_def X_def D_def)
  with assms have X: "X \<noteq> []" by simp
  then have D: "D \<noteq> []" by (auto simp: X_def)
  have "hd (strip s) = last X" using X by (simp add: s hd_rev)
  also have "\<dots> = last (rev D)" using X unfolding X_def by (rule last_dropWhile)
  also have "\<dots> = hd D" using D by (simp add: last_rev)
  finally have "hd (strip s) = hd D" .
  moreover have "\<not> is_space (hd D)" using D unfolding D_def by (rule hd_dropWhile)
  ultimately show "\<not> is_space (hd (strip s))" by simp
  have "last (strip s) = hd X" using X by (simp add: s last_rev)
  moreover have "\<not> is_space (hd X)" using X unfolding X_def by (rule hd_dropWhile)
  ultimately show "\<not> is_space (last (strip s))" by simp
qed

lemma strip_fixed:
  assumes "t = [] \<or> (\<not> is_space (hd t) \<and> \<not> is_space (last t))"
  shows "strip t = t"
proof (cases "t = []")
  case True
  then show ?thesis by (simp add: strip_def)
next
  case False
  with assms have h: "\<not> is_space (hd t)" and l: "\<not> is_space (last t)" by auto
  have a: "dropWhile is_space t = t" using False h by (cases t) auto
  have "hd (rev t) = last t" using False by (simp add: hd_rev)
  moreover obtain y ys where r: "rev t = y # ys" using False by (cases "rev t") auto
  ultimately have "\<not> is_space y" using l by simp
  then have b: "dropWhile is_space (rev t) = rev t" by (simp add: r)
  show ?thesis by (simp add: strip_def a b)
qed

lemma strip_strip: "strip (strip s) = strip s"
  by (rule strip_fixed) (use strip_ends [of s] in blast)

lemma strip_has_nonspace: "strip s \<noteq> [] \<Longrightarrow> \<exists>c\<in>set (strip s). \<not> is_space c"
  using strip_Nil_iff [of "strip s"] by (simp add: strip_strip)

lemma clean_email_body_shape:
  "\<exists>t. clean_email_body charrefs body =
         (if length (strip t) > 500 then take 500 (strip t) @ ''...'' else strip t)"
proof (cases "body = []")
  case True
  have "clean_email_body charrefs body = (if length (strip []) > 500 then take 500 (strip []) @ ''...'' else strip [])"
    using True by (simp add: clean_email_body_def strip_def)
  then show ?thesis by blast
next
  case False
  then show ?thesis unfolding clean_email_body_def Let_def by (simp only: if_False) blast
qed

lemma is_space_dot: "\<not> is_space CHR ''.''"
  by (simp add: is_space_def)

lemma clean_email_body_nonspace:
  assumes "clean_email_body charrefs body \<noteq> []"
  shows "\<exists>c\<in>set (clean_email_body charrefs body). \<not> is_space c"
proof -
  obtain t where t: "clean_email_body charrefs body =
         (if length (strip t) > 500 then take 500 (strip t) @ ''...'' else strip t)"
    using clean_email_body_shape by blast
  show ?thesis
  proof (cases "length (strip t) > 500")
    case True
    then have "CHR ''.'' \<in> set (clean_email_body charrefs body)" by (simp add: t)
    then show ?thesis using is_space_dot by blast
  next
    case False
    then show ?thesis using assms t strip_has_nonspace [of t] by simp
  qed
qed

lemma email_text_blank_iff:
  "strip (email_subject e @ '' '' @ email_subject e @ '' '' @ clean_email_body charrefs (email_body e)) = []
     \<longleftrightarrow> email_subject e = [] \<and> clean_email_body charrefs (email_body e) = []"
proof -
  have sp: "is_space CHR '' ''" by (simp add: is_space_def)
  have a: "email_subject e \<noteq> [] \<Longrightarrow> \<exists>c\<in>set (email_subject e). \<not> is_space c"
    unfolding email_subject_def by (rule strip_has_nonspace)
  have b: "clean_email_body charrefs (email_body e) \<noteq> []
     \<Longrightarrow> \<exists>c\<in>set (clean_email_body charrefs (email_body e)). \<not> is_space c"
    by (rule clean_email_body_nonspace)
  show ?thesis using a b sp by (auto simp: strip_Nil_iff)
qed


lemma compute_similarity_ok:
  assumes "\<forall>v\<in>set vs. length v = length q"
  shows "compute_similarity q vs = Inr (map (\<lambda>v. np_dot v q) vs)"
proof (cases "vs = []")
  case True
  then show ?thesis by (simp add: compute_similarity_def)
next
  case False
  then have "hd vs \<in> set vs" by simp
  with assms have h: "length (hd vs) = length q" by blast
  from assms h have "\<not> (\<exists>v\<in>set vs. length v \<noteq> length (hd vs))" by simp
  with False h show ?thesis unfolding compute_similarity_def by (simp only: if_False if_True simp_thms)
qed

lemma score_emails_ok:
  assumes "\<forall>e\<in>set emails. length (encode eng (email_text charrefs e)) = length (encode eng query)"
  shows "score_emails charrefs eng query emails trace =
           (Inr (zip emails (map (\<lambda>e. np_dot
                   (np_divide (encode eng (email_text charrefs e))
                      (np_norm (encode eng (email_text charrefs e))))
                   (np_divide (encode eng query) (np_norm (encode eng query)))) emails)),
            trace @ [query] @ map (email_text charrefs) emails)"
proof -
  define q where "q = np_divide (encode eng query) (np_norm (encode eng query))"
  define vs where "vs = map (\<lambda>e. np_divide (encode eng (email_text charrefs e))
                  (np_norm (encode eng (email_text charrefs e)))) emails"
  have "\<forall>v\<in>set vs. length v = length q"
    using assms by (auto simp: vs_def q_def length_np_divide)
  then have "compute_similarity q vs = Inr (map (\<lambda>v. np_dot v q) vs)"
    by (rule compute_similarity_ok)
  then show ?thesis
    by (simp add: score_emails_def create_query_embedding_def embed_all_map Let_def
        q_def [symmetric] vs_def [symmetric]) (simp add: vs_def q_def comp_def)
qed

section \<open>Claims about the embedded text and the scores\<close>

text \<open>
  Claim C6, as amended. The combined text of an email is its subject, a space, its
  subject, a space and its cleaned body. When that text is whitespace-only, which is
  the case exactly when the stripped subject and the cleaned body are both empty, the
  text passed to the model is the literal \<open>empty email\<close>.
\<close>

theorem blank_email_placeholder:
  assumes "\<forall>c\<in>set (email_subject e @ '' '' @ email_subject e @ '' ''
                    @ clean_email_body charrefs (email_body e)). is_space c"
  shows "snd (create_email_embedding charrefs eng e trace) = trace @ [''empty email'']
       \<and> email_subject e = [] \<and> clean_email_body charrefs (email_body e) = []"
proof -
  have "strip (email_subject e @ '' '' @ email_subject e @ '' ''
                    @ clean_email_body charrefs (email_body e)) = []"
    using assms by (simp only: strip_Nil_iff)
  then show ?thesis
    using email_text_blank_iff [of e charrefs]
    by (simp add: create_email_embedding_text email_text_def)
qed

lemma clean_blank: "clean_email_body id ''  '' = []"
  by code_simp

lemma blank_mail_parts:
  "email_subject [''subject'' \<mapsto> '' '', ''body'' \<mapsto> ''  ''] = []"
  "email_body [''subject'' \<mapsto> '' '', ''body'' \<mapsto> ''  ''] = ''  ''"
  by (simp_all add: email_subject_def email_body_def strip_def is_space_def)

theorem blank_email_placeholder_witness:
  "list_all is_space
     (email_subject [''subject'' \<mapsto> '' '', ''body'' \<mapsto> ''  ''] @ '' ''
        @ email_subject [''subject'' \<mapsto> '' '', ''body'' \<mapsto> ''  ''] @ '' ''
        @ clean_email_body id (email_body [''subject'' \<mapsto> '' '', ''body'' \<mapsto> ''  '']))
   \<and> snd (create_email_embedding id toy_engine [''subject'' \<mapsto> '' '', ''body'' \<mapsto> ''  ''] [])
       = [''empty email'']"
proof -
  have sp: "\<forall>c\<in>set (email_subject [''subject'' \<mapsto> '' '', ''body'' \<mapsto> ''  ''] @ '' ''
        @ email_subject [''subject'' \<mapsto> '' '', ''body'' \<mapsto> ''  ''] @ '' ''
        @ clean_email_body id (email_body [''subject'' \<mapsto> '' '', ''body'' \<mapsto> ''  ''])). is_space c"
    by (simp add: blank_mail_parts clean_blank is_space_def)
  from blank_email_placeholder [OF sp, of toy_engine "[]"] sp
  show ?thesis by (simp add: list_all_iff)
qed

text \<open>
  The claim C6 as stated names the placeholder \<open>empty document\<close>. For an email with an
  empty subject and an empty body the text passed to the model is \<open>empty email\<close>.
\<close>

theorem placeholder_literal_counterexample:
  "email_subject [''subject'' \<mapsto> [], ''body'' \<mapsto> []] = []
   \<and> clean_email_body id (email_body [''subject'' \<mapsto> [], ''body'' \<mapsto> []]) = []
   \<and> snd (create_email_embedding id toy_engine [''subject'' \<mapsto> [], ''body'' \<mapsto> []] [])
       = [''empty email'']
   \<and> ''empty email'' \<noteq> ''empty document''"
proof -
  have s: "email_subject [''subject'' \<mapsto> [], ''body'' \<mapsto> []] = []"
    and b: "email_body [''subject'' \<mapsto> [], ''body'' \<mapsto> []] = []"
    by (simp_all add: email_subject_def email_body_def strip_def)
  have c: "clean_email_body id [] = []" by (simp add: clean_email_body_def)
  show ?thesis
    by (simp add: create_email_embedding_text email_text_def s b c strip_def is_space_def)
qed

text \<open>
  Claim C7, as amended. The subject is not passed through \<open>clean_email_body\<close>: only the
  whitespace around it is removed (\<open>email_subject\<close>). Unless both the stripped subject
  and the cleaned body are empty, the text passed to the model is the stripped subject,
  a space, the stripped subject again, a space, and the cleaned body.
\<close>

theorem email_text_subject_twice:
  assumes "email_subject e \<noteq> [] \<or> clean_email_body charrefs (email_body e) \<noteq> []"
  shows "snd (create_email_embedding charrefs eng e trace) =
           trace @ [email_subject e @ '' '' @ email_subject e @ '' ''
                      @ clean_email_body charrefs (email_body e)]"
  using assms email_text_blank_iff [of e charrefs]
  by (simp add: create_email_embedding_text email_text_def)

lemma clean_bold_hi: "clean_email_body id ''<b>Hi</b>'' = ''Hi''"
  by code_simp

lemma clean_x: "clean_email_body id ''x'' = ''x''"
  by code_simp

lemma bold_mail_parts:
  "email_subject [''subject'' \<mapsto> '' <b>Hi</b> '', ''body'' \<mapsto> ''x''] = ''<b>Hi</b>''"
  "email_body [''subject'' \<mapsto> '' <b>Hi</b> '', ''body'' \<mapsto> ''x''] = ''x''"
  by (simp_all add: email_subject_def email_body_def strip_def is_space_def)

theorem email_text_subject_twice_witness:
  "email_subject [''subject'' \<mapsto> '' <b>Hi</b> '', ''body'' \<mapsto> ''x''] = ''<b>Hi</b>''
   \<and> snd (create_email_embedding id toy_engine [''subject'' \<mapsto> '' <b>Hi</b> '', ''body'' \<mapsto> ''x''] [])
       = [''<b>Hi</b> <b>Hi</b> x'']"
  using email_text_subject_twice [of "[''subject'' \<mapsto> '' <b>Hi</b> '', ''body'' \<mapsto> ''x'']" id
      toy_engine "[]"]
  by (simp add: bold_mail_parts clean_x)

text \<open>
  The claim C7 as stated has the subject cleaned like the body. For the subject
  \<open><b>Hi</b>\<close> and the body \<open>x\<close> the cleaned subject is \<open>Hi\<close>, and the text passed to
  the model holds the subject with its tags.
\<close>

theorem subject_not_cleaned_counterexample:
  "snd (create_email_embedding id toy_engine [''subject'' \<mapsto> ''<b>Hi</b>'', ''body'' \<mapsto> ''x''] [])
     = [''<b>Hi</b> <b>Hi</b> x'']
   \<and> clean_email_body id ''<b>Hi</b>'' = ''Hi''
   \<and> clean_email_body id ''x'' = ''x''
   \<and> ''<b>Hi</b> <b>Hi</b> x'' \<noteq> ''Hi Hi x''"
proof -
  have "email_subject [''subject'' \<mapsto> ''<b>Hi</b>'', ''body'' \<mapsto> ''x''] = ''<b>Hi</b>''"
    and "email_body [''subject'' \<mapsto> ''<b>Hi</b>'', ''body'' \<mapsto> ''x''] = ''x''"
    by (simp_all add: email_subject_def email_body_def strip_def is_space_def)
  then show ?thesis
    by (simp add: create_email_embedding_text email_text_def clean_x clean_bold_hi strip_def
        is_space_def)
qed

text \<open>
  Claim C5, as amended. Let the model return vectors of one dimension, at least 1, for the
  query and for the text of every email. Then scoring raises no error; and when the
  vector of the query or of an email has norm zero, the score of that email is
  not-a-number: it is not 0 and not finite, and it reaches no threshold.
\<close>

theorem zero_norm_yields_nan:
  assumes dim: "\<forall>e\<in>set emails. length (encode eng (email_text charrefs e)) = length (encode eng query)"
    and pos: "encode eng query \<noteq> []"
    and i: "i < length emails"
    and z: "np_norm (encode eng query) = 0
            \<or> np_norm (encode eng (email_text charrefs (emails ! i))) = 0"
  shows "\<exists>email_scores trace'.
           score_emails charrefs eng query emails trace = (Inr email_scores, trace')
         \<and> length email_scores = length emails
         \<and> email_scores ! i = (emails ! i, NaN)
         \<and> (\<forall>t. \<not> np_ge (snd (email_scores ! i)) t)"
proof -
  define q where "q = np_divide (encode eng query) (np_norm (encode eng query))"
  define v where "v = np_divide (encode eng (email_text charrefs (emails ! i)))
                        (np_norm (encode eng (email_text charrefs (emails ! i))))"
  have mem: "emails ! i \<in> set emails" using i by simp
  have lq: "length q = length (encode eng query)" by (simp add: q_def length_np_divide)
  have lv: "length v = length (encode eng query)" using dim mem by (simp add: v_def length_np_divide)
  have vne: "v \<noteq> []" using lv pos by auto
  have "np_dot v q = NaN"
  proof (cases "np_norm (encode eng query) = 0")
    case True
    then have "\<forall>x\<in>set q. x = NaN" by (simp add: q_def np_divide_zero)
    with vne lq lv show ?thesis by (intro np_dot_all_NaN_right) simp_all
  next
    case False
    with z have "\<forall>x\<in>set v. x = NaN" by (simp add: v_def np_divide_zero)
    with vne lq lv show ?thesis by (intro np_dot_all_NaN_left) simp_all
  qed
  then show ?thesis
    using i by (simp add: score_emails_ok [OF dim] q_def v_def)
qed

lemma toy_text:
  assumes "\<not> is_space c" and "\<not> is_space (last (c # cs))"
  shows "email_text charrefs (mail (c # cs)) = (c # cs) @ '' '' @ (c # cs) @ '' ''"
proof -
  have "strip (c # cs) = c # cs" using assms by (intro strip_fixed) simp
  then show ?thesis
    by (simp add: email_text_def email_subject_def email_body_def mail_def clean_email_body_def
        strip_Nil_iff assms)
qed

theorem zero_norm_yields_nan_witness:
  "np_norm (encode toy_engine (email_text id (mail ''z''))) = 0
   \<and> (\<exists>email_scores trace'.
         score_emails id toy_engine ''a'' [mail ''d'', mail ''z'', mail ''b''] [] = (Inr email_scores, trace')
       \<and> email_scores ! 1 = (mail ''z'', NaN))"
proof -
  have t: "email_text id (mail ''d'') = ''d d ''" "email_text id (mail ''z'') = ''z z ''"
    "email_text id (mail ''b'') = ''b b ''"
    by (simp_all add: toy_text is_space_def)
  have n: "np_norm (encode toy_engine (email_text id (mail ''z''))) = 0"
    by (simp add: t toy_engine_def toy_encode_def np_norm_def)
  have dim: "\<forall>e\<in>set [mail ''d'', mail ''z'', mail ''b''].
      length (encode toy_engine (email_text id e)) = length (encode toy_engine ''a'')"
    by (simp add: t toy_engine_def toy_encode_def)
  have pos: "encode toy_engine ''a'' \<noteq> []" by (simp add: toy_engine_def toy_encode_def)
  from zero_norm_yields_nan [OF dim pos, of 1 "[]"] n
  show ?thesis by auto
qed

text \<open>
  The claim C5 as stated has a zero-norm vector score 0 and every returned score finite.
  For a corpus of one email whose vector is zero the search returns that email with the
  score not-a-number.
\<close>

theorem zero_norm_counterexample:
  "encode toy_engine (email_text id (mail ''z'')) = [0, 0]
   \<and> fst (semantic_search (\<lambda>ks. id) id toy_engine ''a'' [mail ''z''] 5 None [])
       = Inr [(mail ''z'', NaN)]
   \<and> NaN \<noteq> Fin 0"
proof -
  have t: "email_text id (mail ''z'') = ''z z ''" by (simp add: toy_text is_space_def)
  have sc: "score_emails id toy_engine ''a'' [mail ''z''] [] = (Inr [(mail ''z'', NaN)], [''a'', ''z z ''])"
    by (simp add: score_emails_def create_query_embedding_def create_email_embedding_text t
        toy_engine_def toy_encode_def np_divide_def np_norm_def compute_similarity_def np_dot_def)
  have th: "similarity_threshold toy_engine = 1 / 10" by (simp add: toy_engine_def)
  show ?thesis
    by (simp add: semantic_search_def sc th t slice_to_def list_sort_reverse_def binarysort_def
        count_run_def) (simp add: toy_engine_def toy_encode_def)
qed

section \<open>Properties of the cleaning of the body\<close>

lemma is_space_blank: "is_space CHR '' ''"
  by (simp add: is_space_def)

lemma single_spaced_Cons_iff:
  "single_spaced (c # cs) =
     ((is_space c \<longrightarrow> c = CHR '' '' \<and> (cs = [] \<or> \<not> is_space (hd cs))) \<and> single_spaced cs)"
  by (cases cs) auto

lemma single_spaced_tl: "single_spaced (c # cs) \<Longrightarrow> single_spaced cs"
  by simp

lemma single_spaced_space: "single_spaced s \<Longrightarrow> c \<in> set s \<Longrightarrow> is_space c \<Longrightarrow> c = CHR '' ''"
  by (induction s) (auto split: if_splits)

lemma single_spaced_dropWhile: "single_spaced s \<Longrightarrow> single_spaced (dropWhile P s)"
  by (induction s) auto

lemma single_spaced_append_left: "single_spaced (xs @ ys) \<Longrightarrow> single_spaced xs"
proof (induction xs)
  case Nil
  then show ?case by simp
next
  case (Cons c xs)
  then show ?case by (cases xs) (auto simp: single_spaced_Cons_iff simp del: single_spaced.simps)
qed

lemma single_spaced_append:
  "single_spaced xs \<Longrightarrow> single_spaced ys \<Longrightarrow> ys = [] \<or> \<not> is_space (hd ys) \<Longrightarrow> single_spaced (xs @ ys)"
proof (induction xs)
  case Nil
  then show ?case by simp
next
  case (Cons c xs)
  then show ?case by (cases xs) (auto simp: single_spaced_Cons_iff simp del: single_spaced.simps)
qed

lemma single_spaced_take: "single_spaced s \<Longrightarrow> single_spaced (take n s)"
  using single_spaced_append_left [of "take n s" "drop n s"] by simp

lemma rev_dropWhile_rev_prefix: "rev (dropWhile P (rev s)) @ rev (takeWhile P (rev s)) = s"
proof -
  have "rev (takeWhile P (rev s) @ dropWhile P (rev s)) = s" by simp
  then show ?thesis by (simp only: rev_append)
qed

lemma single_spaced_strip: "single_spaced s \<Longrightarrow> single_spaced (strip s)"
proof -
  assume "single_spaced s"
  then have d: "single_spaced (dropWhile is_space s)" by (rule single_spaced_dropWhile)
  have "strip s @ rev (takeWhile is_space (rev (dropWhile is_space s))) = dropWhile is_space s"
    unfolding strip_def by (rule rev_dropWhile_rev_prefix)
  with d show ?thesis by (metis single_spaced_append_left)
qed

lemma set_strip: "set (strip s) \<subseteq> set s"
proof -
  have "set (strip s) \<subseteq> set (dropWhile is_space s)"
    unfolding strip_def by (auto dest: set_dropWhileD)
  then show ?thesis by (auto dest: set_dropWhileD)
qed

lemma re_sub_no_match:
  assumes "\<And>prev t. t \<noteq> [] \<Longrightarrow> set t \<subseteq> set s \<Longrightarrow> m prev t = None"
  shows "re_sub m repl prev s = s"
  using assms
proof (induction s arbitrary: prev)
  case Nil
  then show ?case by simp
next
  case (Cons c cs)
  have "m prev (c # cs) = None" by (rule Cons.prems) simp_all
  moreover have "re_sub m repl (Some c) cs = cs"
    by (rule Cons.IH) (rule Cons.prems, auto)
  ultimately show ?case by simp
qed

lemma set_re_sub: "set (re_sub m repl prev s) \<subseteq> set repl \<union> set s"
proof (induction m repl prev s rule: re_sub.induct)
  case (1 m repl prev)
  then show ?case by simp
next
  case (2 m repl prev c cs)
  show ?case
  proof (cases "m prev (c # cs)")
    case None
    with 2(1) show ?thesis by auto
  next
    case (Some n)
    have "set (drop (n - 1) cs) \<subseteq> set cs" by (rule set_drop_subset)
    with 2(2) [OF Some] Some show ?thesis by auto
  qed
qed

lemma starts_with_set: "starts_with p t \<Longrightarrow> set p \<subseteq> set t"
  by (induction p t rule: starts_with.induct) auto

lemma tag_match_char: "tag_match prev t = Some n \<Longrightarrow> CHR ''<'' \<in> set t"
  by (auto simp: tag_match_def Let_def split: list.splits if_splits)

lemma url_match_char: "url_match prev t = Some n \<Longrightarrow> CHR ''/'' \<in> set t"
  by (auto simp: url_match_def split: if_splits dest!: starts_with_set)

lemma email_match_char: "email_match prev t = Some n \<Longrightarrow> CHR ''@'' \<in> set t"
proof -
  assume "email_match prev t = Some n"
  then have "first_char (dropWhile is_local_char t) = Some (CHR ''@'')"
    by (auto simp: email_match_def Let_def split: if_splits)
  then have "CHR ''@'' \<in> set (dropWhile is_local_char t)"
    by (auto simp: first_char_def split: list.splits)
  then show ?thesis by (rule set_dropWhileD)
qed

lemma special_match_char: "special_match prev t = Some n \<Longrightarrow> \<exists>c\<in>set t. \<not> is_kept c"
  by (auto simp: special_match_def split: list.splits if_splits)

lemma not_kept:
  "\<not> is_kept CHR ''<''" "\<not> is_kept CHR ''/''" "\<not> is_kept CHR ''@''"
  "\<not> is_kept CHR ''&''" "\<not> is_kept CHR ''>''"
  by code_simp+

lemma kept_blank_dot: "is_kept CHR '' ''" "is_kept CHR ''.''"
  by (simp_all add: is_kept_def is_space_def)

lemma kept_special: "\<forall>x\<in>set (re_sub special_match '' '' prev s). is_kept x"
  by (induction s arbitrary: prev) (simp_all add: special_match_def kept_blank_dot)

lemma space_match_nonspace: "\<not> is_space c \<Longrightarrow> space_match prev (c # cs) = None"
  by (simp add: space_match_def)

lemma space_match_space:
  "is_space c \<Longrightarrow> space_match prev (c # cs) = Some (Suc (length (takeWhile is_space cs)))"
  by (simp add: space_match_def)

lemma re_sub_space_fixed: "single_spaced s \<Longrightarrow> re_sub space_match '' '' prev s = s"
proof (induction s arbitrary: prev)
  case Nil
  then show ?case by simp
next
  case (Cons c cs)
  then have ih: "re_sub space_match '' '' p cs = cs" for p by simp
  show ?case
  proof (cases "is_space c")
    case False
    then show ?thesis by (simp add: space_match_nonspace ih)
  next
    case True
    with Cons.prems have c: "c = CHR '' ''" and n: "cs = [] \<or> \<not> is_space (hd cs)"
      by (simp_all add: single_spaced_Cons_iff del: single_spaced.simps)
    from n have "takeWhile is_space cs = []" by (cases cs) auto
    with True c show ?thesis by (simp add: space_match_space ih)
  qed
qed

lemma re_sub_space_nonspace:
  "\<not> is_space c \<Longrightarrow> re_sub space_match repl prev (c # cs) = c # re_sub space_match repl (Some c) cs"
  by (simp add: space_match_nonspace)

lemma re_sub_space_space:
  "is_space c \<Longrightarrow> \<exists>p. re_sub space_match repl prev (c # cs) = repl @ re_sub space_match repl p (dropWhile is_space cs)"
  by (auto simp: space_match_space dropWhile_eq_drop)

lemma single_spaced_re_sub_space: "single_spaced (re_sub space_match '' '' prev s)"
proof (induction "length s" arbitrary: s prev rule: less_induct)
  case less
  show ?case
  proof (cases s)
    case Nil
    then show ?thesis by simp
  next
    case (Cons c cs)
    show ?thesis
    proof (cases "is_space c")
      case False
      have "single_spaced (re_sub space_match '' '' (Some c) cs)"
        by (rule less) (simp add: Cons)
      with False show ?thesis by (simp add: Cons re_sub_space_nonspace del: re_sub.simps)
    next
      case True
      define r where "r = dropWhile is_space cs"
      from True obtain p where
        e: "re_sub space_match '' '' prev (c # cs) = '' '' @ re_sub space_match '' '' p r"
        unfolding r_def using re_sub_space_space by blast
      have "length r \<le> length cs" unfolding r_def by (rule length_dropWhile_le)
      then have ss: "single_spaced (re_sub space_match '' '' p r)"
        by (intro less) (simp add: Cons)
      have "re_sub space_match '' '' p r = [] \<or> \<not> is_space (hd (re_sub space_match '' '' p r))"
      proof (cases r)
        case Nil
        then show ?thesis by simp
      next
        case (Cons x xs)
        then have "\<not> is_space x" using hd_dropWhile [of is_space cs] by (simp add: r_def)
        then show ?thesis by (simp add: Cons re_sub_space_nonspace del: re_sub.simps)
      qed
      with ss show ?thesis
        by (simp add: Cons e single_spaced_Cons_iff del: single_spaced.simps re_sub.simps)
    qed
  qed
qed

lemma split_on_absent: "d \<notin> set s \<Longrightarrow> split_on d s = [s]"
  by (induction s) auto

lemma cleaned_kept:
  "\<forall>c\<in>set (strip (re_sub space_match '' '' None (re_sub special_match '' '' None J))). is_kept c"
proof -
  have "set (strip (re_sub space_match '' '' None (re_sub special_match '' '' None J)))
          \<subseteq> set '' '' \<union> set (re_sub special_match '' '' None J)"
    using set_strip set_re_sub by (rule subset_trans)
  then show ?thesis using kept_special [of None J] kept_blank_dot by auto
qed

lemma clean_email_body_steps:
  "\<exists>J. clean_email_body charrefs body =
         (if length (strip (re_sub space_match '' '' None (re_sub special_match '' '' None J))) > 500
          then take 500 (strip (re_sub space_match '' '' None (re_sub special_match '' '' None J))) @ ''...''
          else strip (re_sub space_match '' '' None (re_sub special_match '' '' None J)))"
proof (cases "body = []")
  case True
  have "clean_email_body charrefs body =
         (if length (strip (re_sub space_match '' '' None (re_sub special_match '' '' None []))) > 500
          then take 500 (strip (re_sub space_match '' '' None (re_sub special_match '' '' None []))) @ ''...''
          else strip (re_sub space_match '' '' None (re_sub special_match '' '' None [])))"
    using True by (simp add: clean_email_body_def strip_def)
  then show ?thesis by blast
next
  case False
  then show ?thesis unfolding clean_email_body_def Let_def by (simp only: if_False) blast
qed

lemma cleaned_single_spaced:
  "single_spaced (strip (re_sub space_match '' '' None (re_sub special_match '' '' None J)))"
  by (rule single_spaced_strip) (rule single_spaced_re_sub_space)

lemma capped_facts:
  assumes kept: "\<forall>c\<in>set w. is_kept c" and ss: "single_spaced w"
    and trim: "w = [] \<or> (\<not> is_space (hd w) \<and> \<not> is_space (last w))"
  shows "\<forall>c\<in>set (if length w > 500 then take 500 w @ ''...'' else w). is_kept c"
    and "single_spaced (if length w > 500 then take 500 w @ ''...'' else w)"
    and "(if length w > 500 then take 500 w @ ''...'' else w) = []
         \<or> (\<not> is_space (hd (if length w > 500 then take 500 w @ ''...'' else w))
            \<and> \<not> is_space (last (if length w > 500 then take 500 w @ ''...'' else w)))"
    and "length (if length w > 500 then take 500 w @ ''...'' else w) > 500
         \<Longrightarrow> take 500 (if length w > 500 then take 500 w @ ''...'' else w) @ ''...''
             = (if length w > 500 then take 500 w @ ''...'' else w)"
proof -
  have dots: "single_spaced ''...''" "\<not> is_space (hd ''...'')"
    by (simp_all add: is_space_def)
  show "\<forall>c\<in>set (if length w > 500 then take 500 w @ ''...'' else w). is_kept c"
    using kept by (auto simp: kept_blank_dot dest: in_set_takeD)
  show "single_spaced (if length w > 500 then take 500 w @ ''...'' else w)"
    using ss dots by (simp add: single_spaced_append single_spaced_take del: single_spaced.simps)
  show "(if length w > 500 then take 500 w @ ''...'' else w) = []
         \<or> (\<not> is_space (hd (if length w > 500 then take 500 w @ ''...'' else w))
            \<and> \<not> is_space (last (if length w > 500 then take 500 w @ ''...'' else w)))"
  proof (cases "length w > 500")
    case True
    then obtain c cs where w: "w = c # cs" by (cases w) auto
    with trim have "\<not> is_space c" by simp
    with True show ?thesis by (simp add: w is_space_def)
  next
    case False
    with trim show ?thesis by simp
  qed
  show "take 500 (if length w > 500 then take 500 w @ ''...'' else w) @ ''...''
             = (if length w > 500 then take 500 w @ ''...'' else w)"
    if "length (if length w > 500 then take 500 w @ ''...'' else w) > 500"
    using that by (simp split: if_splits)
qed

lemma clean_email_body_fixed:
  assumes kept: "\<forall>c\<in>set t. is_kept c" and ss: "single_spaced t"
    and trim: "t = [] \<or> (\<not> is_space (hd t) \<and> \<not> is_space (last t))"
    and capped: "length t > 500 \<Longrightarrow> take 500 t @ ''...'' = t"
    and foot: "re_sub footer_match [] None t = t"
  shows "clean_email_body charrefs t = t"
proof (cases "t = []")
  case True
  then show ?thesis by (simp add: clean_email_body_def)
next
  case False
  have absent: "c \<notin> set t" if "\<not> is_kept c" for c using kept that by blast
  have amp: "html_unescape charrefs t = t"
    by (simp add: html_unescape_def absent not_kept)
  have tag: "re_sub tag_match '' '' None t = t"
  proof (rule re_sub_no_match)
    fix prev u assume "u \<noteq> []" and sub: "set u \<subseteq> set t"
    show "tag_match prev u = None"
    proof (cases "tag_match prev u")
      case (Some n)
      then have "CHR ''<'' \<in> set u" by (rule tag_match_char)
      with sub absent [OF not_kept(1)] show ?thesis by blast
    qed simp
  qed
  have url: "re_sub url_match '' '' None t = t"
  proof (rule re_sub_no_match)
    fix prev u assume "u \<noteq> []" and sub: "set u \<subseteq> set t"
    show "url_match prev u = None"
    proof (cases "url_match prev u")
      case (Some n)
      then have "CHR ''/'' \<in> set u" by (rule url_match_char)
      with sub absent [OF not_kept(2)] show ?thesis by blast
    qed simp
  qed
  have email: "re_sub email_match '' '' None t = t"
  proof (rule re_sub_no_match)
    fix prev u assume "u \<noteq> []" and sub: "set u \<subseteq> set t"
    show "email_match prev u = None"
    proof (cases "email_match prev u")
      case (Some n)
      then have "CHR ''@'' \<in> set u" by (rule email_match_char)
      with sub absent [OF not_kept(3)] show ?thesis by blast
    qed simp
  qed
  have space: "re_sub space_match '' '' None t = t"
    using ss by (rule re_sub_space_fixed)
  have special: "re_sub special_match '' '' None t = t"
  proof (rule re_sub_no_match)
    fix prev u assume "u \<noteq> []" and sub: "set u \<subseteq> set t"
    show "special_match prev u = None"
    proof (cases "special_match prev u")
      case (Some n)
      then obtain c where "c \<in> set u" "\<not> is_kept c" using special_match_char by blast
      with sub kept show ?thesis by blast
    qed simp
  qed
  have "CHR 0x0A \<notin> set t"
  proof
    assume "CHR 0x0A \<in> set t"
    moreover have "is_space (CHR 0x0A)" by (simp add: is_space_def)
    ultimately have "CHR 0x0A = CHR '' ''" using ss single_spaced_space by blast
    then show False by simp
  qed
  then have split: "split_on (CHR 0x0A) t = [t]" by (rule split_on_absent)
  have st: "strip t = t" using trim by (rule strip_fixed)
  have gt: "\<not> starts_with ''>'' t"
  proof
    assume "starts_with ''>'' t"
    then have "set ''>'' \<subseteq> set t" by (rule starts_with_set)
    with absent [OF not_kept(5)] show False by simp
  qed
  have "clean_email_body charrefs t = (if length t > 500 then take 500 t @ ''...'' else t)"
    using False
    by (simp add: clean_email_body_def Let_def amp tag url email space foot split st gt special
        del: re_sub.simps)
  with capped show ?thesis by simp
qed

section \<open>Claims about the cleaning of the body\<close>

text \<open>
  Claim C4 (quoted replies). \<open>clean_email_body\<close> collapses every run of whitespace,
  line breaks included, to one space before it splits the text into lines, so the split
  finds one line only and a quoted line is not dropped: in the text of the two lines
  \<open>hello\<close> and \<open>> secret\<close> the second line starts with \<open>>\<close>, and its content is
  part of the result.
\<close>

theorem quoted_line_survives:
  "split_on (CHR 0x0A) (''hello'' @ [CHR 0x0A] @ ''> secret'') = [''hello'', ''> secret'']
   \<and> starts_with ''>'' (strip ''> secret'')
   \<and> clean_email_body id (''hello'' @ [CHR 0x0A] @ ''> secret'') = ''hello secret''"
  by code_simp

text \<open>
  Claim C8, as amended. Cleaning a cleaned text again returns it unchanged whenever the
  removal of footers leaves the cleaned text unchanged, that is, whenever no footer marker
  occurs in it. (The footers are removed before the special characters are replaced by
  spaces and before the text is cut at 500 characters, and both can put a marker
  together that was not in the text before.)
\<close>

theorem clean_email_body_idempotent:
  assumes "re_sub footer_match [] None (clean_email_body charrefs s) = clean_email_body charrefs s"
  shows "clean_email_body charrefs (clean_email_body charrefs s) = clean_email_body charrefs s"
proof -
  obtain J where t: "clean_email_body charrefs s =
         (if length (strip (re_sub space_match '' '' None (re_sub special_match '' '' None J))) > 500
          then take 500 (strip (re_sub space_match '' '' None (re_sub special_match '' '' None J))) @ ''...''
          else strip (re_sub space_match '' '' None (re_sub special_match '' '' None J)))"
    using clean_email_body_steps by blast
  define w where "w = strip (re_sub space_match '' '' None (re_sub special_match '' '' None J))"
  have kept: "\<forall>c\<in>set w. is_kept c" unfolding w_def by (rule cleaned_kept)
  have ss: "single_spaced w" unfolding w_def by (rule cleaned_single_spaced)
  have trim: "w = [] \<or> (\<not> is_space (hd w) \<and> \<not> is_space (last w))"
    unfolding w_def using strip_ends by blast
  have t': "clean_email_body charrefs s = (if length w > 500 then take 500 w @ ''...'' else w)"
    using t by (simp only: w_def)
  show ?thesis
    unfolding t'
    by (rule clean_email_body_fixed)
      (use capped_facts [OF kept ss trim] assms in \<open>simp_all only: t' [symmetric]\<close>)
qed

lemma clean_sample: "clean_email_body id ''Hi <b>you</b>,  see http://x.y/z now'' = ''Hi you , see now''"
  by code_simp

lemma clean_sample_footer_free: "re_sub footer_match [] None ''Hi you , see now'' = ''Hi you , see now''"
  by code_simp

theorem clean_email_body_idempotent_witness:
  "clean_email_body id ''Hi <b>you</b>,  see http://x.y/z now'' = ''Hi you , see now''
   \<and> re_sub footer_match [] None (clean_email_body id ''Hi <b>you</b>,  see http://x.y/z now'')
       = clean_email_body id ''Hi <b>you</b>,  see http://x.y/z now''
   \<and> clean_email_body id (clean_email_body id ''Hi <b>you</b>,  see http://x.y/z now'')
       = clean_email_body id ''Hi <b>you</b>,  see http://x.y/z now''"
proof -
  have h: "re_sub footer_match [] None (clean_email_body id ''Hi <b>you</b>,  see http://x.y/z now'')
       = clean_email_body id ''Hi <b>you</b>,  see http://x.y/z now''"
    by (simp only: clean_sample clean_sample_footer_free)
  from clean_email_body_idempotent [OF h] h clean_sample show ?thesis by (simp only: simp_thms)
qed

text \<open>
  The claim C8 as stated fails: cleaning \<open>privacy#policy\<close> replaces the special character
  by a space, which gives the footer marker \<open>privacy policy\<close>; cleaning that text again
  removes it.
\<close>

theorem renormalize_counterexample:
  "clean_email_body id ''privacy#policy'' = ''privacy policy''
   \<and> clean_email_body id (clean_email_body id ''privacy#policy'') = []
   \<and> clean_email_body id (clean_email_body id ''privacy#policy'') \<noteq> clean_email_body id ''privacy#policy''"
  by code_simp

end
